theory Spec2Isabelle
  imports Complex_Main "HOL-Library.AList"
begin

section \<open>Data model\<close>

text \<open>
  A race result is the dictionary built by \<open>load_raw_results\<close>: the keys \<open>name\<close>,
  \<open>age\<close>, \<open>sex\<close>, \<open>division\<close>, \<open>div_place\<close>, \<open>time_seconds\<close>, \<open>time_display\<close> and
  \<open>year\<close>. Ages are Python integers. Finish times are Python floats; they are modelled
  as real numbers, so comparisons are those of a linear order (no NaN) and the
  interpolation arithmetic is exact. The year is the string passed to the loader.
\<close>

record runner =
  name :: string
  age :: int
  sex :: string
  division :: string
  div_place :: string
  time_seconds :: real
  time_display :: string
  year :: string

datatype error = ValueError | KeyError

section \<open>Python built-ins used by the program\<close>

text \<open>
  \<open>min(xs, key=f)\<close> and \<open>max(xs, key=f)\<close> walk the sequence once and keep the first
  element whose key is extremal; on an empty sequence they raise \<open>ValueError\<close>.
  \<open>min_key f x xs\<close> is the walk over the non-empty sequence \<open>x # xs\<close>.
\<close>

fun min_key :: "('a \<Rightarrow> 'k::linorder) \<Rightarrow> 'a \<Rightarrow> 'a list \<Rightarrow> 'a" where
  "min_key f best [] = best"
| "min_key f best (x # xs) = min_key f (if f x < f best then x else best) xs"

fun max_key :: "('a \<Rightarrow> 'k::linorder) \<Rightarrow> 'a \<Rightarrow> 'a list \<Rightarrow> 'a" where
  "max_key f best [] = best"
| "max_key f best (x # xs) = max_key f (if f best < f x then x else best) xs"

definition py_min :: "('a \<Rightarrow> 'k::linorder) \<Rightarrow> 'a list \<Rightarrow> error + 'a" where
  "py_min f xs = (case xs of [] \<Rightarrow> Inl ValueError | x # rest \<Rightarrow> Inr (min_key f x rest))"

text \<open>
  \<open>sorted(xs, key=f)\<close> is a stable sort; it is modelled by the stable insertion sort
  \<^const>\<open>sort_key\<close> of the list library.
\<close>

section \<open>Age Reducer\<close>

text \<open>
  \<open>get_fastest_at_each_age\<close>: the dictionary \<open>age_groups\<close> keeps its keys in insertion
  order, and an assignment to an existing key keeps the key's position. It is an
  association list, \<^const>\<open>map_of\<close> the lookup and \<^const>\<open>AList.update\<close> the assignment.
\<close>

definition age_groups_step :: "runner \<Rightarrow> (int \<times> runner) list \<Rightarrow> (int \<times> runner) list" where
  "age_groups_step r age_groups =
     (case map_of age_groups (age r) of
        None \<Rightarrow> AList.update (age r) r age_groups
      | Some cur \<Rightarrow>
          if time_seconds r < time_seconds cur then AList.update (age r) r age_groups
          else age_groups)"

definition get_fastest_at_each_age :: "runner list \<Rightarrow> runner list" where
  "get_fastest_at_each_age runners =
     (if runners = [] then [] else map snd (fold age_groups_step runners []))"

section \<open>Pareto Engine\<close>

text \<open>
  The running value \<open>best_time_so_far\<close> starts at \<open>float('inf')\<close>: \<open>None\<close> stands for
  plus infinity, below which every finish time lies.
\<close>

definition faster_than :: "real \<Rightarrow> real option \<Rightarrow> bool" where
  "faster_than t best = (case best of None \<Rightarrow> True | Some b \<Rightarrow> t < b)"

text \<open>
  One scan loop of \<open>compute_pareto_front\<close>: the state is \<open>best_time_so_far\<close> and the
  list collected so far, to which a runner is appended when strictly faster.
\<close>

fun scan_front :: "real option \<Rightarrow> runner list \<Rightarrow> runner list \<Rightarrow> runner list" where
  "scan_front best acc [] = acc"
| "scan_front best acc (r # rs) =
     (if faster_than (time_seconds r) best
      then scan_front (Some (time_seconds r)) (acc @ [r]) rs
      else scan_front best acc rs)"

definition compute_pareto_front :: "runner list \<Rightarrow> runner list" where
  "compute_pareto_front runners =
     (case runners of
        [] \<Rightarrow> []
      | r0 # rest \<Rightarrow>
          let fastest = min_key time_seconds r0 rest;
              peak_age = age fastest;
              sorted_runners = sort_key age runners;
              younger_than_peak = filter (\<lambda>r. age r < peak_age) sorted_runners;
              at_or_older_than_peak = filter (\<lambda>r. peak_age \<le> age r) sorted_runners;
              pareto = scan_front None [] younger_than_peak;
              older_pareto = scan_front None [] (rev at_or_older_than_peak)
          in pareto @ rev older_pareto)"

section \<open>Metrics Engine\<close>

text \<open>
  \<open>get_pareto_time_at_age\<close> returns Python's \<open>None\<close> or a float: a \<open>real option\<close>.
  The divisor \<open>age_diff\<close> is the difference of an age above and an age below the queried
  one, so the division never fails.
\<close>

definition get_pareto_time_at_age :: "int \<Rightarrow> runner list \<Rightarrow> real option" where
  "get_pareto_time_at_age a pareto_front =
     (case pareto_front of
        [] \<Rightarrow> None
      | f0 # frest \<Rightarrow>
          (case find (\<lambda>p. age p = a) pareto_front of
             Some p \<Rightarrow> Some (time_seconds p)
           | None \<Rightarrow>
               (case (filter (\<lambda>p. age p < a) pareto_front,
                      filter (\<lambda>p. a < age p) pareto_front) of
                  ([], []) \<Rightarrow> None
                | ([], _ # _) \<Rightarrow> Some (time_seconds (min_key age f0 frest))
                | (_ # _, []) \<Rightarrow> Some (time_seconds (max_key age f0 frest))
                | (y0 # yrest, o0 # orest) \<Rightarrow>
                    let closest_younger = max_key age y0 yrest;
                        closest_older = min_key age o0 orest;
                        age_diff = age closest_older - age closest_younger;
                        time_diff = time_seconds closest_older - time_seconds closest_younger;
                        age_offset = a - age closest_younger
                    in Some (time_seconds closest_younger
                             + time_diff * real_of_int age_offset / real_of_int age_diff))))"

text \<open>
  The caller's \<open>distance = result['time_seconds'] - pareto_time if pareto_time else None\<close>:
  the test is Python truthiness, false for \<open>None\<close> and for \<open>0.0\<close>.
\<close>

definition distance_to_pareto :: "runner \<Rightarrow> runner list \<Rightarrow> real option" where
  "distance_to_pareto result pareto =
     (case get_pareto_time_at_age (age result) pareto of
        None \<Rightarrow> None
      | Some pareto_time \<Rightarrow>
          if pareto_time = 0 then None else Some (time_seconds result - pareto_time))"

text \<open>
  \<open>count_blocking_runners\<close> starts with \<open>min\<close> over the pool, which raises on an empty
  pool. The two counting loops add one per matching runner; the third branch is the
  \<open>sum(1 for ... if ...)\<close> expression.
\<close>

definition count_blocking_runners :: "runner \<Rightarrow> runner list \<Rightarrow> error + nat" where
  "count_blocking_runners r all_runners_same_gender =
     (case py_min time_seconds all_runners_same_gender of
        Inl e \<Rightarrow> Inl e
      | Inr fastest \<Rightarrow>
          let peak_age = age fastest in
          if age r < peak_age then
            Inr (fold (\<lambda>other blocking_count.
                         if age other \<le> age r \<and> time_seconds other < time_seconds r
                         then blocking_count + 1 else blocking_count)
                      all_runners_same_gender 0)
          else if peak_age < age r then
            Inr (fold (\<lambda>other blocking_count.
                         if age r \<le> age other \<and> time_seconds other < time_seconds r
                         then blocking_count + 1 else blocking_count)
                      all_runners_same_gender 0)
          else if time_seconds r = time_seconds fastest then Inr 0
          else Inr (sum_list (map (\<lambda>other. 1)
                      (filter (\<lambda>other. age other = age r \<and> time_seconds other < time_seconds r)
                         all_runners_same_gender))))"

section \<open>Aggregator: display names of the all-time view\<close>

text \<open>
  The first loop of \<open>build_all_time_data\<close> (and of \<open>get_all_time_data\<close>) fills the
  dictionary \<open>name_year_counts\<close>, a list of years per name.
\<close>

definition name_year_counts_step ::
  "runner \<Rightarrow> (string \<rightharpoonup> string list) \<Rightarrow> (string \<rightharpoonup> string list)" where
  "name_year_counts_step result counts =
     (case counts (name result) of
        None \<Rightarrow> counts(name result \<mapsto> [] @ [year result])
      | Some ys \<Rightarrow> counts(name result \<mapsto> ys @ [year result]))"

definition name_year_counts :: "runner list \<Rightarrow> (string \<rightharpoonup> string list)" where
  "name_year_counts all_results = fold name_year_counts_step all_results Map.empty"

text \<open>
  The second loop stores \<open>display_name\<close> in each result; the model returns each result
  with its display name. \<open>len(set(ys))\<close> counts the distinct years. Reading a missing
  key would raise \<open>KeyError\<close>.
\<close>

definition display_name :: "(string \<rightharpoonup> string list) \<Rightarrow> runner \<Rightarrow> error + string" where
  "display_name counts result =
     (case counts (name result) of
        None \<Rightarrow> Inl KeyError
      | Some ys \<Rightarrow>
          if 1 < length (remdups ys)
          then Inr (name result @ '' ('' @ year result @ '')'')
          else Inr (name result))"

fun display_names_loop ::
  "(string \<rightharpoonup> string list) \<Rightarrow> runner list \<Rightarrow> error + (runner \<times> string) list" where
  "display_names_loop counts [] = Inr []"
| "display_names_loop counts (result # rest) =
     (case display_name counts result of
        Inl e \<Rightarrow> Inl e
      | Inr d \<Rightarrow>
          (case display_names_loop counts rest of
             Inl e \<Rightarrow> Inl e
           | Inr ds \<Rightarrow> Inr ((result, d) # ds)))"

definition display_names :: "runner list \<Rightarrow> error + (runner \<times> string) list" where
  "display_names all_results = display_names_loop (name_year_counts all_results) all_results"

section \<open>Notions of the specification\<close>

text \<open>
  The peak record of a pool is the first record, in input order, that attains the
  minimum of the key: everything before it is strictly larger, nothing after it is smaller.
\<close>

definition first_min :: "('a \<Rightarrow> 'k::linorder) \<Rightarrow> 'a list \<Rightarrow> 'a \<Rightarrow> bool" where
  "first_min f xs m =
     (\<exists>ps qs. xs = ps @ m # qs \<and> (\<forall>q\<in>set ps. f m < f q) \<and> (\<forall>q\<in>set qs. f m \<le> f q))"


text \<open>Concrete race results, for the evaluations below.\<close>

definition mk_runner :: "string \<Rightarrow> int \<Rightarrow> real \<Rightarrow> string \<Rightarrow> runner" where
  "mk_runner n a t y =
     \<lparr>name = n, age = a, sex = ''M'', division = ''M2029'', div_place = ''1'',
      time_seconds = t, time_display = ''0:00'', year = y\<rparr>"

text \<open>
  The two halves of the result of \<open>compute_pareto_front\<close>: the scan over the runners
  younger than the peak age, and the reversed scan over the others.
\<close>

definition younger_front :: "int \<Rightarrow> runner list \<Rightarrow> runner list" where
  "younger_front peak_age runners =
     scan_front None [] (filter (\<lambda>r. age r < peak_age) (sort_key age runners))"

definition older_front :: "int \<Rightarrow> runner list \<Rightarrow> runner list" where
  "older_front peak_age runners =
     rev (scan_front None [] (rev (filter (\<lambda>r. peak_age \<le> age r) (sort_key age runners))))"

text \<open>
  Domination, in the words of the specification: \<open>r2\<close> dominates \<open>r1\<close> when it is on
  the same side of the peak age, at least as far from it, and not slower. The sides are
  those of the program's partition: ages below the peak age, and ages at or above it.
\<close>

definition same_side :: "int \<Rightarrow> int \<Rightarrow> int \<Rightarrow> bool" where
  "same_side peak_age a1 a2 =
     ((a1 < peak_age \<and> a2 < peak_age) \<or> (peak_age \<le> a1 \<and> peak_age \<le> a2))"

definition dominates :: "int \<Rightarrow> runner \<Rightarrow> runner \<Rightarrow> bool" where
  "dominates peak_age r2 r1 =
     (same_side peak_age (age r1) (age r2)
      \<and> \<bar>age r1 - peak_age\<bar> \<le> \<bar>age r2 - peak_age\<bar>
      \<and> time_seconds r2 \<le> time_seconds r1)"

text \<open>
  The invariant of the specification: no entry of the front is dominated by another one.
\<close>

definition non_dominated :: "int \<Rightarrow> runner list \<Rightarrow> bool" where
  "non_dominated peak_age front =
     (\<forall>r1\<in>set front. \<forall>r2\<in>set front. r1 \<noteq> r2 \<longrightarrow> \<not> dominates peak_age r2 r1)"

text \<open>
  Domination by a record strictly farther from the peak age.
\<close>

definition dominates_farther :: "int \<Rightarrow> runner \<Rightarrow> runner \<Rightarrow> bool" where
  "dominates_farther peak_age r2 r1 =
     (same_side peak_age (age r1) (age r2)
      \<and> \<bar>age r1 - peak_age\<bar> < \<bar>age r2 - peak_age\<bar>
      \<and> time_seconds r2 \<le> time_seconds r1)"

text \<open>
  The ordering invariant of the specification: ages strictly increase, and around the
  index \<open>p\<close> of a minimum-time entry the times strictly decrease over \<open>0..p\<close> and
  strictly increase over \<open>p..end\<close>.
\<close>

definition front_ordered :: "runner list \<Rightarrow> bool" where
  "front_ordered F =
     (sorted_wrt (\<lambda>a b. age a < age b) F
      \<and> (\<exists>p<length F.
            (\<forall>i<length F. time_seconds (F ! p) \<le> time_seconds (F ! i))
            \<and> sorted_wrt (\<lambda>a b. time_seconds b < time_seconds a) (take (Suc p) F)
            \<and> sorted_wrt (\<lambda>a b. time_seconds a < time_seconds b) (drop p F)))"

text \<open>
  The linear interpolation of the specification between a younger and an older entry.
\<close>

definition interpolate :: "runner \<Rightarrow> runner \<Rightarrow> int \<Rightarrow> real" where
  "interpolate y ol a =
     time_seconds y
     + (time_seconds ol - time_seconds y) * real_of_int (a - age y) / real_of_int (age ol - age y)"

text \<open>
  The content of the dictionary \<open>age_groups\<close> after a pass over a pool, as a function of
  the pool: at each age present, the first minimum-time record among the records of that
  age. It is the abstraction used to verify the Age Reducer.
\<close>

definition fastest_at_age :: "runner list \<Rightarrow> int \<Rightarrow> runner option" where
  "fastest_at_age pool k =
     (case filter (\<lambda>q. age q = k) pool of
        [] \<Rightarrow> None
      | y # ys \<Rightarrow> Some (min_key time_seconds y ys))"

text \<open>
  The content of the dictionary \<open>name_year_counts\<close> after the first loop, as a function
  of the results: for each name present, the years of its records in input order.
\<close>

definition years_of_name :: "runner list \<Rightarrow> string \<Rightarrow> string list option" where
  "years_of_name all_results n =
     (case filter (\<lambda>q. name q = n) all_results of
        [] \<Rightarrow> None
      | y # ys \<Rightarrow> Some (map year (y # ys)))"

text \<open>
  The display name in the words of the specification: the year is appended when the
  records sharing the raw name span more than one distinct year.
\<close>

definition spec_display_name :: "runner list \<Rightarrow> runner \<Rightarrow> string" where
  "spec_display_name all_results r =
     (if 1 < card (year ` {q \<in> set all_results. name q = name r})
      then name r @ '' ('' @ year r @ '')''
      else name r)"

section \<open>The built-ins \<open>min\<close> and \<open>max\<close>\<close>

lemma min_key_snoc:
  "min_key f b (xs @ [x]) = (let m = min_key f b xs in if f x < f m then x else m)"
  by (induction xs arbitrary: b) (simp_all add: Let_def)

lemma max_key_snoc:
  "max_key f b (xs @ [x]) = (let m = max_key f b xs in if f m < f x then x else m)"
  by (induction xs arbitrary: b) (simp_all add: Let_def)

lemma min_key_in: "min_key f b xs \<in> set (b # xs)"
  by (induction xs arbitrary: b) auto

lemma max_key_in: "max_key f b xs \<in> set (b # xs)"
  by (induction xs arbitrary: b) auto

lemma min_key_le: "y \<in> set (b # xs) \<Longrightarrow> f (min_key f b xs) \<le> f y"
proof (induction xs arbitrary: y rule: rev_induct)
  case Nil
  then show ?case by simp
next
  case (snoc x xs)
  then show ?case
    by (auto simp: min_key_snoc Let_def intro: order_trans less_imp_le)
qed

lemma max_key_ge: "y \<in> set (b # xs) \<Longrightarrow> f y \<le> f (max_key f b xs)"
proof (induction xs arbitrary: y rule: rev_induct)
  case Nil
  then show ?case by simp
next
  case (snoc x xs)
  then show ?case
    by (auto simp: max_key_snoc Let_def intro: order_trans less_imp_le)
qed

lemma min_key_first_min: "first_min f (b # xs) (min_key f b xs)"
proof (induction xs rule: rev_induct)
  case Nil
  show ?case unfolding first_min_def by (rule exI[of _ "[]"], rule exI[of _ "[]"]) simp
next
  case (snoc x xs)
  let ?m = "min_key f b xs"
  from snoc obtain ps qs where d: "b # xs = ps @ ?m # qs"
    and lt: "\<forall>q\<in>set ps. f ?m < f q" and le: "\<forall>q\<in>set qs. f ?m \<le> f q"
    unfolding first_min_def by blast
  show ?case
  proof (cases "f x < f ?m")
    case True
    have all: "\<forall>q\<in>set (b # xs). f x < f q"
      using True min_key_le[of _ b xs f] by (meson less_le_trans)
    have "b # xs @ [x] = (b # xs) @ x # []" by simp
    with all True show ?thesis
      unfolding first_min_def min_key_snoc Let_def
      by (intro exI[of _ "b # xs"] exI[of _ "[]"]) simp
  next
    case False
    have "b # xs @ [x] = ps @ ?m # (qs @ [x])" using d by simp
    with lt le False show ?thesis
      unfolding first_min_def min_key_snoc Let_def
      by (intro exI[of _ ps] exI[of _ "qs @ [x]"]) auto
  qed
qed

lemma first_min_unique:
  assumes "first_min f xs m" "first_min f xs m'"
  shows "m = m'"
proof -
  from assms(1) obtain ps qs where d: "xs = ps @ m # qs"
    and lt: "\<forall>q\<in>set ps. f m < f q" and le: "\<forall>q\<in>set qs. f m \<le> f q"
    unfolding first_min_def by blast
  from assms(2) obtain ps' qs' where d': "xs = ps' @ m' # qs'"
    and lt': "\<forall>q\<in>set ps'. f m' < f q" and le': "\<forall>q\<in>set qs'. f m' \<le> f q"
    unfolding first_min_def by blast
  from d d' have e: "ps @ m # qs = ps' @ m' # qs'" by simp
  show ?thesis
  proof (rule ccontr)
    assume ne: "m \<noteq> m'"
    from e consider us where "ps = ps' @ us" "us @ m # qs = m' # qs'"
      | us where "ps @ us = ps'" "m # qs = us @ m' # qs'"
      by (auto simp: append_eq_append_conv2)
    then show False
    proof cases
      case 1
      with ne obtain us' where "us = m' # us'" by (cases us) auto
      with 1 have "m' \<in> set ps" "m \<in> set qs'" by auto
      with lt le' show False by fastforce
    next
      case 2
      with ne obtain us' where "us = m # us'" by (cases us) auto
      with 2 have "m \<in> set ps'" "m' \<in> set qs" by auto
      with lt' le show False by fastforce
    qed
  qed
qed

lemma first_min_min_key:
  "first_min f (b # xs) m \<Longrightarrow> min_key f b xs = m"
  by (rule first_min_unique [OF min_key_first_min])

lemma first_min_in: "first_min f xs m \<Longrightarrow> m \<in> set xs"
  unfolding first_min_def by auto

lemma first_min_le: "first_min f xs m \<Longrightarrow> y \<in> set xs \<Longrightarrow> f m \<le> f y"
  unfolding first_min_def by (fastforce intro: less_imp_le)

lemma first_min_py_min: "first_min f xs m \<Longrightarrow> py_min f xs = Inr m"
  by (cases xs) (auto simp: py_min_def first_min_min_key first_min_def)

lemma first_min_exists: "xs \<noteq> [] \<Longrightarrow> \<exists>m. first_min f xs m"
  by (cases xs) (auto intro: min_key_first_min)

lemma first_min_iff_py_min: "first_min f xs m \<longleftrightarrow> py_min f xs = Inr m"
proof
  assume "first_min f xs m"
  then show "py_min f xs = Inr m" by (rule first_min_py_min)
next
  assume "py_min f xs = Inr m"
  then show "first_min f xs m"
    by (cases xs) (auto simp: py_min_def intro: min_key_first_min)
qed

section \<open>Blocking runners\<close>

lemma fold_count:
  "fold (\<lambda>x (c::nat). if P x then c + 1 else c) xs n = n + length (filter P xs)"
  by (induction xs arbitrary: n) simp_all

lemma sum_list_ones: "sum_list (map (\<lambda>x. Suc 0) xs) = length xs"
  by (induction xs) simp_all

text \<open>
  Claim C6. For a pool whose first minimum-time record is \<open>fastest\<close> (every non-empty
  pool has exactly one, see \<open>first_min_exists\<close> and \<open>first_min_unique\<close>), with
  \<open>peak_age = age fastest\<close>: \<open>count_blocking_runners r pool\<close> returns the number of pool
  members with age at most \<open>age r\<close> and strictly smaller time when \<open>age r < peak_age\<close>;
  the number of pool members with age at least \<open>age r\<close> and strictly smaller time when
  \<open>age r > peak_age\<close>; and at the peak age, 0 when the time of \<open>r\<close> is the pool's
  minimum time, else the number of pool members of the same age with strictly smaller time.
\<close>

theorem count_blocking_runners_spec:
  assumes "first_min time_seconds pool fastest"
  shows "count_blocking_runners r pool =
     Inr (if age r < age fastest
          then length (filter (\<lambda>other. age other \<le> age r \<and> time_seconds other < time_seconds r) pool)
          else if age fastest < age r
          then length (filter (\<lambda>other. age r \<le> age other \<and> time_seconds other < time_seconds r) pool)
          else if time_seconds r = time_seconds fastest then 0
          else length (filter (\<lambda>other. age other = age r \<and> time_seconds other < time_seconds r) pool))"
proof -
  from assms have "py_min time_seconds pool = Inr fastest" by (rule first_min_py_min)
  then show ?thesis
    by (simp add: count_blocking_runners_def fold_count sum_list_ones)
qed

text \<open>
  The pool of the specification's example: peak at age 30, and the runner of age 20
  with time 1300 is blocked by nobody.
\<close>

theorem count_blocking_runners_spec_witness:
  "first_min time_seconds
     [mk_runner ''A'' 20 1300 ''2025'', mk_runner ''B'' 25 1250 ''2025'', mk_runner ''C'' 30 1200 ''2025'']
     (mk_runner ''C'' 30 1200 ''2025'')
   \<and> count_blocking_runners (mk_runner ''A'' 20 1300 ''2025'')
     [mk_runner ''A'' 20 1300 ''2025'', mk_runner ''B'' 25 1250 ''2025'', mk_runner ''C'' 30 1200 ''2025'']
     = Inr 0"
proof -
  have h: "first_min time_seconds
     [mk_runner ''A'' 20 1300 ''2025'', mk_runner ''B'' 25 1250 ''2025'', mk_runner ''C'' 30 1200 ''2025'']
     (mk_runner ''C'' 30 1200 ''2025'')"
    by (simp add: first_min_iff_py_min py_min_def mk_runner_def)
  show ?thesis
    using h count_blocking_runners_spec [OF h, of "mk_runner ''A'' 20 1300 ''2025''"]
    by (simp add: mk_runner_def)
qed

section \<open>Empty input\<close>

text \<open>
  Claim C4, as stated, fails for \<open>count_blocking_runners\<close>: it has no case for the
  empty pool, and its first statement, \<open>min\<close> over the pool, raises \<open>ValueError\<close> there.
\<close>

theorem count_blocking_runners_empty_pool_raises:
  "\<not> (\<exists>n. count_blocking_runners (mk_runner ''A'' 20 1300 ''2025'') [] = Inr n)"
  by (simp add: count_blocking_runners_def py_min_def)

text \<open>
  Claim C4, amended. On empty input the Age Reducer and the Pareto Engine return the
  empty list and \<open>get_pareto_time_at_age\<close> returns \<open>None\<close>, without raising.
  \<open>count_blocking_runners\<close> raises \<open>ValueError\<close> on the empty pool and returns a count
  for every non-empty pool; its only caller passes the pool the record was taken from.
\<close>

theorem empty_input_results:
  "get_fastest_at_each_age [] = []
   \<and> compute_pareto_front [] = []
   \<and> get_pareto_time_at_age a [] = None
   \<and> count_blocking_runners r [] = Inl ValueError
   \<and> (\<forall>pool. pool \<noteq> [] \<longrightarrow> (\<exists>n. count_blocking_runners r pool = Inr n))"
proof -
  have "\<exists>n. count_blocking_runners r pool = Inr n" if "pool \<noteq> []" for pool
  proof -
    from that obtain x rest where "pool = x # rest" by (cases pool) auto
    then show ?thesis
      by (simp add: count_blocking_runners_def py_min_def Let_def)
  qed
  then show ?thesis
    by (simp add: get_fastest_at_each_age_def compute_pareto_front_def
        get_pareto_time_at_age_def count_blocking_runners_def py_min_def)
qed

theorem empty_input_results_witness:
  "[mk_runner ''A'' 20 1300 ''2025''] \<noteq> []
   \<and> count_blocking_runners (mk_runner ''A'' 20 1300 ''2025'') [mk_runner ''A'' 20 1300 ''2025'']
       = Inr 0
   \<and> count_blocking_runners (mk_runner ''A'' 20 1300 ''2025'') [] = Inl ValueError
   \<and> get_pareto_time_at_age 20 [] = None"
  using empty_input_results [of 20 "mk_runner ''A'' 20 1300 ''2025''"]
  by (simp add: count_blocking_runners_def py_min_def)

section \<open>The scan loops and the two halves of the front\<close>

lemma scan_front_acc: "scan_front best acc xs = acc @ scan_front best [] xs"
proof (induction xs arbitrary: best acc)
  case Nil
  show ?case by simp
next
  case (Cons r rs)
  show ?case
    using Cons.IH [of "Some (time_seconds r)" "acc @ [r]"]
      Cons.IH [of "Some (time_seconds r)" "[r]"] Cons.IH [of best acc]
    by simp
qed

lemma scan_front_Cons:
  "scan_front best [] (r # rs) =
     (if faster_than (time_seconds r) best
      then r # scan_front (Some (time_seconds r)) [] rs
      else scan_front best [] rs)"
  using scan_front_acc [of "Some (time_seconds r)" "[r]" rs] by simp

declare scan_front.simps(2) [simp del]

lemma scan_front_subset: "set (scan_front best [] xs) \<subseteq> set xs"
  by (induction xs arbitrary: best) (auto simp: scan_front_Cons)

lemma scan_front_faster:
  "s \<in> set (scan_front best [] xs) \<Longrightarrow> faster_than (time_seconds s) best"
proof (induction xs arbitrary: best)
  case Nil
  then show ?case by simp
next
  case (Cons r rs)
  show ?case
  proof (cases "faster_than (time_seconds r) best")
    case True
    with Cons.prems have "s = r \<or> s \<in> set (scan_front (Some (time_seconds r)) [] rs)"
      by (simp add: scan_front_Cons)
    then show ?thesis
    proof
      assume "s = r" with True show ?thesis by simp
    next
      assume "s \<in> set (scan_front (Some (time_seconds r)) [] rs)"
      then have "faster_than (time_seconds s) (Some (time_seconds r))" by (rule Cons.IH)
      with True show ?thesis by (auto simp: faster_than_def split: option.splits)
    qed
  next
    case False
    with Cons show ?thesis by (simp add: scan_front_Cons)
  qed
qed

lemma scan_front_sorted:
  "sorted_wrt R xs \<Longrightarrow>
   sorted_wrt (\<lambda>a b. R a b \<and> time_seconds b < time_seconds a) (scan_front best [] xs)"
proof (induction xs arbitrary: best)
  case Nil
  show ?case by simp
next
  case (Cons r rs)
  have "R r s \<and> time_seconds s < time_seconds r"
    if "s \<in> set (scan_front (Some (time_seconds r)) [] rs)" for s
    using that Cons.prems scan_front_subset [of "Some (time_seconds r)" rs]
      scan_front_faster [OF that]
    by (auto simp: faster_than_def)
  with Cons show ?case by (simp add: scan_front_Cons)
qed

lemma scan_front_covers:
  "sorted_wrt R xs \<Longrightarrow> x \<in> set xs \<Longrightarrow> faster_than (time_seconds x) best \<Longrightarrow>
   \<exists>s\<in>set (scan_front best [] xs). time_seconds s \<le> time_seconds x \<and> (s = x \<or> R s x)"
proof (induction xs arbitrary: best)
  case Nil
  then show ?case by simp
next
  case (Cons r rs)
  show ?case
  proof (cases "faster_than (time_seconds r) best")
    case True
    show ?thesis
    proof (cases "x = r \<or> time_seconds r \<le> time_seconds x")
      case True
      with Cons.prems \<open>faster_than (time_seconds r) best\<close> show ?thesis
        by (auto simp: scan_front_Cons)
    next
      case False
      with Cons.prems have "x \<in> set rs" "faster_than (time_seconds x) (Some (time_seconds r))"
        "sorted_wrt R rs"
        by (auto simp: faster_than_def)
      from Cons.IH [OF this(3) this(1) this(2)] True show ?thesis
        by (auto simp: scan_front_Cons)
    qed
  next
    case False
    with Cons.prems have "x \<in> set rs" "sorted_wrt R rs" by auto
    from Cons.IH [OF this(2) this(1) Cons.prems(3)] False show ?thesis
      by (simp add: scan_front_Cons)
  qed
qed

lemma scan_front_id:
  "sorted_wrt (\<lambda>a b. time_seconds b < time_seconds a) xs \<Longrightarrow>
   \<forall>x\<in>set xs. faster_than (time_seconds x) best \<Longrightarrow> scan_front best [] xs = xs"
proof (induction xs arbitrary: best)
  case Nil
  show ?case by simp
next
  case (Cons r rs)
  have "scan_front (Some (time_seconds r)) [] rs = rs"
    using Cons.prems by (intro Cons.IH) (auto simp: faster_than_def)
  with Cons.prems show ?case by (simp add: scan_front_Cons)
qed

lemma sorted_wrt_pair:
  "sorted_wrt P xs \<Longrightarrow> x \<in> set xs \<Longrightarrow> y \<in> set xs \<Longrightarrow> x = y \<or> P x y \<or> P y x"
  by (induction xs) auto

lemma front_unfold:
  assumes "first_min time_seconds runners fastest"
  shows "compute_pareto_front runners =
     younger_front (age fastest) runners @ older_front (age fastest) runners"
proof -
  from assms obtain r0 rest where r: "runners = r0 # rest"
    by (cases runners) (auto simp: first_min_def)
  with assms have "min_key time_seconds r0 rest = fastest"
    by (simp add: first_min_min_key)
  with r show ?thesis
    by (simp add: compute_pareto_front_def younger_front_def older_front_def Let_def)
qed

lemma sorted_by_age_filter:
  "sorted_wrt (\<lambda>a b. age a \<le> age b) (filter P (sort_key age runners))"
proof -
  have "sorted (map age (sort_key age runners))" by simp
  then have "sorted_wrt (\<lambda>a b. age a \<le> age b) (sort_key age runners)"
    by (simp only: sorted_map)
  then show ?thesis by (rule sorted_wrt_filter)
qed

lemma younger_front_subset:
  "s \<in> set (younger_front pa runners) \<Longrightarrow> s \<in> set runners \<and> age s < pa"
  using scan_front_subset [of None "filter (\<lambda>r. age r < pa) (sort_key age runners)"]
  by (auto simp: younger_front_def)

lemma older_front_subset:
  "s \<in> set (older_front pa runners) \<Longrightarrow> s \<in> set runners \<and> pa \<le> age s"
  using scan_front_subset [of None "rev (filter (\<lambda>r. pa \<le> age r) (sort_key age runners))"]
  by (auto simp: older_front_def)

lemma younger_front_sorted:
  "sorted_wrt (\<lambda>a b. age a \<le> age b \<and> time_seconds b < time_seconds a)
     (younger_front pa runners)"
  unfolding younger_front_def by (rule scan_front_sorted) (rule sorted_by_age_filter)

lemma older_front_sorted:
  "sorted_wrt (\<lambda>a b. age a \<le> age b \<and> time_seconds a < time_seconds b)
     (older_front pa runners)"
proof -
  let ?O = "filter (\<lambda>r. pa \<le> age r) (sort_key age runners)"
  have "sorted_wrt (\<lambda>a b. age b \<le> age a) (rev ?O)"
    using sorted_by_age_filter [of "\<lambda>r. pa \<le> age r" runners] by (simp add: sorted_wrt_rev)
  then have "sorted_wrt (\<lambda>a b. age b \<le> age a \<and> time_seconds b < time_seconds a)
     (scan_front None [] (rev ?O))"
    by (rule scan_front_sorted)
  then show ?thesis by (simp add: older_front_def sorted_wrt_rev)
qed

lemma younger_front_covers:
  assumes "x \<in> set runners" "age x < pa"
  shows "\<exists>s\<in>set (younger_front pa runners). time_seconds s \<le> time_seconds x \<and> age s \<le> age x"
proof -
  let ?Y = "filter (\<lambda>r. age r < pa) (sort_key age runners)"
  have "x \<in> set ?Y" using assms by simp
  moreover have "faster_than (time_seconds x) None" by (simp add: faster_than_def)
  ultimately have "\<exists>s\<in>set (scan_front None [] ?Y).
      time_seconds s \<le> time_seconds x \<and> (s = x \<or> age s \<le> age x)"
    by (rule scan_front_covers [OF sorted_by_age_filter])
  then show ?thesis by (auto simp: younger_front_def)
qed

lemma older_front_covers:
  assumes "x \<in> set runners" "pa \<le> age x"
  shows "\<exists>s\<in>set (older_front pa runners). time_seconds s \<le> time_seconds x \<and> age x \<le> age s"
proof -
  let ?O = "filter (\<lambda>r. pa \<le> age r) (sort_key age runners)"
  have srt: "sorted_wrt (\<lambda>a b. age b \<le> age a) (rev ?O)"
    using sorted_by_age_filter [of "\<lambda>r. pa \<le> age r" runners] by (simp add: sorted_wrt_rev)
  have "x \<in> set (rev ?O)" using assms by simp
  moreover have "faster_than (time_seconds x) None" by (simp add: faster_than_def)
  ultimately have "\<exists>s\<in>set (scan_front None [] (rev ?O)).
      time_seconds s \<le> time_seconds x \<and> (s = x \<or> age x \<le> age s)"
    by (rule scan_front_covers [OF srt])
  then show ?thesis by (auto simp: older_front_def)
qed

lemma front_subset:
  "first_min time_seconds runners fastest \<Longrightarrow>
   s \<in> set (compute_pareto_front runners) \<Longrightarrow> s \<in> set runners"
  by (auto simp: front_unfold dest: younger_front_subset older_front_subset)

section \<open>The peak record\<close>

lemma older_front_min:
  assumes "first_min time_seconds runners fastest"
  shows "\<exists>s\<in>set (older_front (age fastest) runners).
           time_seconds s = time_seconds fastest \<and> age fastest \<le> age s"
proof -
  have "fastest \<in> set runners" using assms by (rule first_min_in)
  from older_front_covers [OF this, of "age fastest"]
  obtain s where s: "s \<in> set (older_front (age fastest) runners)"
    "time_seconds s \<le> time_seconds fastest" "age fastest \<le> age s"
    by auto
  from s(1) have "s \<in> set runners" by (simp add: older_front_subset)
  then have "time_seconds fastest \<le> time_seconds s" by (rule first_min_le [OF assms])
  with s show ?thesis by force
qed

text \<open>
  Claim C1, amended. For every non-empty input, with \<open>fastest\<close> the first record
  attaining the minimum time, the front contains a record with that minimum time, of age
  at least the peak age; and it contains \<open>fastest\<close> itself whenever no other record
  of age at least the peak age has the same time.
\<close>

theorem peak_record_in_front:
  assumes "first_min time_seconds runners fastest"
  shows "(\<exists>s\<in>set (compute_pareto_front runners).
            time_seconds s = time_seconds fastest \<and> age fastest \<le> age s)
       \<and> ((\<forall>q\<in>set runners. q \<noteq> fastest \<and> age fastest \<le> age q
              \<longrightarrow> time_seconds q \<noteq> time_seconds fastest)
          \<longrightarrow> fastest \<in> set (compute_pareto_front runners))"
proof -
  from older_front_min [OF assms]
  obtain s where s: "s \<in> set (older_front (age fastest) runners)"
    "time_seconds s = time_seconds fastest" "age fastest \<le> age s"
    by auto
  from s(1) have sr: "s \<in> set runners" by (simp add: older_front_subset)
  have sf: "s \<in> set (compute_pareto_front runners)"
    using s(1) by (simp add: front_unfold [OF assms])
  have "fastest \<in> set (compute_pareto_front runners)"
    if "\<forall>q\<in>set runners. q \<noteq> fastest \<and> age fastest \<le> age q
          \<longrightarrow> time_seconds q \<noteq> time_seconds fastest"
  proof -
    from that sr s(2,3) have "s = fastest" by blast
    with sf show ?thesis by simp
  qed
  with sf s(2,3) show ?thesis by blast
qed

text \<open>A pool with a single fastest record, at age 30.\<close>

theorem peak_record_in_front_witness:
  "first_min time_seconds
     [mk_runner ''C'' 20 200 ''2025'', mk_runner ''A'' 30 100 ''2025'', mk_runner ''B'' 40 150 ''2025'']
     (mk_runner ''A'' 30 100 ''2025'')
   \<and> mk_runner ''A'' 30 100 ''2025'' \<in> set (compute_pareto_front
     [mk_runner ''C'' 20 200 ''2025'', mk_runner ''A'' 30 100 ''2025'', mk_runner ''B'' 40 150 ''2025''])"
proof -
  have h: "first_min time_seconds
     [mk_runner ''C'' 20 200 ''2025'', mk_runner ''A'' 30 100 ''2025'', mk_runner ''B'' 40 150 ''2025'']
     (mk_runner ''A'' 30 100 ''2025'')"
    by (simp add: first_min_iff_py_min py_min_def mk_runner_def)
  show ?thesis
    using h peak_record_in_front [OF h] by (simp add: mk_runner_def)
qed

text \<open>
  Claim C1, as stated, fails when an older record ties the minimum time: the reversed scan
  reaches the older record first, and the peak record is then not strictly faster. The
  first record below is the peak record, and the front is the second record alone.
\<close>

theorem peak_record_dropped_on_tie:
  "first_min time_seconds
     [mk_runner ''A'' 30 100 ''2025'', mk_runner ''B'' 40 100 ''2025'']
     (mk_runner ''A'' 30 100 ''2025'')
   \<and> mk_runner ''A'' 30 100 ''2025'' \<notin> set (compute_pareto_front
     [mk_runner ''A'' 30 100 ''2025'', mk_runner ''B'' 40 100 ''2025''])"
  by (simp add: first_min_iff_py_min py_min_def compute_pareto_front_def mk_runner_def
      scan_front_Cons faster_than_def)

section \<open>Ordering and non-domination of the front\<close>

lemma older_front_hd:
  assumes "first_min time_seconds runners fastest"
  shows "\<exists>e es. older_front (age fastest) runners = e # es
           \<and> time_seconds e = time_seconds fastest"
proof -
  from older_front_min [OF assms]
  obtain s where s: "s \<in> set (older_front (age fastest) runners)"
    "time_seconds s = time_seconds fastest"
    by auto
  then obtain e es where e: "older_front (age fastest) runners = e # es"
    by (cases "older_front (age fastest) runners") auto
  have "e \<in> set (older_front (age fastest) runners)" using e by simp
  then have "e \<in> set runners" by (simp add: older_front_subset)
  then have ge: "time_seconds fastest \<le> time_seconds e" by (rule first_min_le [OF assms])
  have "sorted_wrt (\<lambda>a b. age a \<le> age b \<and> time_seconds a < time_seconds b) (e # es)"
    using older_front_sorted [of "age fastest" runners] e by simp
  with s(1) e have "s = e \<or> time_seconds e < time_seconds s" by auto
  with s(2) ge have "time_seconds e = time_seconds fastest" by auto
  with e show ?thesis by blast
qed

lemma front_filter_younger:
  "filter (\<lambda>r. age r < pa) (younger_front pa runners @ older_front pa runners)
     = younger_front pa runners"
proof -
  have "filter (\<lambda>r. age r < pa) (younger_front pa runners) = younger_front pa runners"
    by (rule filter_True) (simp add: younger_front_subset)
  moreover have "filter (\<lambda>r. age r < pa) (older_front pa runners) = []"
    by (rule filter_False) (auto dest: older_front_subset)
  ultimately show ?thesis by simp
qed

lemma front_sorted_by_age:
  "sorted_wrt (\<lambda>a b. age a \<le> age b) (younger_front pa runners @ older_front pa runners)"
proof -
  have "sorted_wrt (\<lambda>a b. age a \<le> age b) (younger_front pa runners)"
    by (rule sorted_wrt_mono_rel [OF _ younger_front_sorted]) simp
  moreover have "sorted_wrt (\<lambda>a b. age a \<le> age b) (older_front pa runners)"
    by (rule sorted_wrt_mono_rel [OF _ older_front_sorted]) simp
  moreover have "age x \<le> age y"
    if "x \<in> set (younger_front pa runners)" "y \<in> set (older_front pa runners)" for x y
    using younger_front_subset [OF that(1)] older_front_subset [OF that(2)] by simp
  ultimately show ?thesis by (simp add: sorted_wrt_append)
qed

lemma distinct_ages_eq:
  "distinct (map age runners) \<Longrightarrow> x \<in> set runners \<Longrightarrow> y \<in> set runners \<Longrightarrow>
   age x = age y \<Longrightarrow> x = y"
  by (auto simp: distinct_map dest: inj_onD)

lemma front_sorted_by_age_strict:
  assumes "distinct (map age runners)"
  shows "sorted_wrt (\<lambda>a b. age a < age b) (younger_front pa runners @ older_front pa runners)"
proof -
  have y: "sorted_wrt (\<lambda>a b. age a < age b) (younger_front pa runners)"
  proof (rule sorted_wrt_mono_rel [OF _ younger_front_sorted])
    fix x y
    assume "x \<in> set (younger_front pa runners)" "y \<in> set (younger_front pa runners)"
      and xy: "age x \<le> age y \<and> time_seconds y < time_seconds x"
    then have "x \<in> set runners" "y \<in> set runners" by (simp_all add: younger_front_subset)
    with xy distinct_ages_eq [OF assms, of x y] show "age x < age y" by fastforce
  qed
  have o: "sorted_wrt (\<lambda>a b. age a < age b) (older_front pa runners)"
  proof (rule sorted_wrt_mono_rel [OF _ older_front_sorted])
    fix x y
    assume "x \<in> set (older_front pa runners)" "y \<in> set (older_front pa runners)"
      and xy: "age x \<le> age y \<and> time_seconds x < time_seconds y"
    then have "x \<in> set runners" "y \<in> set runners" by (simp_all add: older_front_subset)
    with xy distinct_ages_eq [OF assms, of x y] show "age x < age y" by fastforce
  qed
  have "age x < age y"
    if "x \<in> set (younger_front pa runners)" "y \<in> set (older_front pa runners)" for x y
    using younger_front_subset [OF that(1)] older_front_subset [OF that(2)] by simp
  with y o show ?thesis by (simp add: sorted_wrt_append)
qed

text \<open>
  Claim C2, amended. For every non-empty input, with \<open>F\<close> the front and \<open>p\<close> the number
  of front entries younger than the peak age: the ages never decrease along \<open>F\<close>, and
  strictly increase when no two input records share an age; entry \<open>p\<close> exists and has
  the minimum time of the input; the times strictly decrease over the entries before
  \<open>p\<close> and strictly increase from \<open>p\<close> to the end; and the times strictly decrease over
  \<open>0..p\<close> when no record younger than the peak age has the minimum time.
\<close>

theorem front_ordering:
  assumes "first_min time_seconds runners fastest"
  shows "let F = compute_pareto_front runners;
             p = length (filter (\<lambda>r. age r < age fastest) F)
         in sorted_wrt (\<lambda>a b. age a \<le> age b) F
          \<and> (distinct (map age runners) \<longrightarrow> sorted_wrt (\<lambda>a b. age a < age b) F)
          \<and> p < length F
          \<and> time_seconds (F ! p) = time_seconds fastest
          \<and> sorted_wrt (\<lambda>a b. time_seconds b < time_seconds a) (take p F)
          \<and> sorted_wrt (\<lambda>a b. time_seconds a < time_seconds b) (drop p F)
          \<and> ((\<forall>q\<in>set runners. age q < age fastest \<longrightarrow> time_seconds q \<noteq> time_seconds fastest)
             \<longrightarrow> sorted_wrt (\<lambda>a b. time_seconds b < time_seconds a) (take (Suc p) F))"
proof -
  let ?Y = "younger_front (age fastest) runners"
  let ?O = "older_front (age fastest) runners"
  have F: "compute_pareto_front runners = ?Y @ ?O" by (rule front_unfold [OF assms])
  have p: "length (filter (\<lambda>r. age r < age fastest) (?Y @ ?O)) = length ?Y"
    by (simp only: front_filter_younger)
  from older_front_hd [OF assms] obtain e es where e: "?O = e # es"
    and te: "time_seconds e = time_seconds fastest" by blast
  have c1: "sorted_wrt (\<lambda>a b. age a \<le> age b) (?Y @ ?O)" by (rule front_sorted_by_age)
  have c2: "distinct (map age runners) \<longrightarrow> sorted_wrt (\<lambda>a b. age a < age b) (?Y @ ?O)"
    by (simp add: front_sorted_by_age_strict)
  have c3: "length ?Y < length (?Y @ ?O)" using e by simp
  have c4: "time_seconds ((?Y @ ?O) ! length ?Y) = time_seconds fastest"
    using e te by (simp add: nth_append)
  have sy: "sorted_wrt (\<lambda>a b. time_seconds b < time_seconds a) ?Y"
    by (rule sorted_wrt_mono_rel [OF _ younger_front_sorted]) simp
  then have c5: "sorted_wrt (\<lambda>a b. time_seconds b < time_seconds a) (take (length ?Y) (?Y @ ?O))"
    by simp
  have "sorted_wrt (\<lambda>a b. time_seconds a < time_seconds b) ?O"
    by (rule sorted_wrt_mono_rel [OF _ older_front_sorted]) simp
  then have c6: "sorted_wrt (\<lambda>a b. time_seconds a < time_seconds b) (drop (length ?Y) (?Y @ ?O))"
    by simp
  have c7: "sorted_wrt (\<lambda>a b. time_seconds b < time_seconds a) (take (Suc (length ?Y)) (?Y @ ?O))"
    if nt: "\<forall>q\<in>set runners. age q < age fastest \<longrightarrow> time_seconds q \<noteq> time_seconds fastest"
  proof -
    have "time_seconds e < time_seconds y" if "y \<in> set ?Y" for y
    proof -
      from younger_front_subset [OF that] have yr: "y \<in> set runners" "age y < age fastest"
        by simp_all
      from first_min_le [OF assms yr(1)] nt yr te show ?thesis by fastforce
    qed
    moreover have "take (Suc (length ?Y)) (?Y @ ?O) = ?Y @ [e]" using e by simp
    ultimately show ?thesis using sy by (simp add: sorted_wrt_append)
  qed
  from c1 c2 c3 c4 c5 c6 c7 show ?thesis
    unfolding Let_def F p by blast
qed

text \<open>
  A pool with distinct ages and a single fastest record: the peak entry has index 1.
\<close>

theorem front_ordering_witness:
  "first_min time_seconds
     [mk_runner ''C'' 20 200 ''2025'', mk_runner ''A'' 30 100 ''2025'', mk_runner ''B'' 40 150 ''2025'']
     (mk_runner ''A'' 30 100 ''2025'')
   \<and> distinct (map age
     [mk_runner ''C'' 20 200 ''2025'', mk_runner ''A'' 30 100 ''2025'', mk_runner ''B'' 40 150 ''2025''])
   \<and> sorted_wrt (\<lambda>a b. age a < age b) (compute_pareto_front
     [mk_runner ''C'' 20 200 ''2025'', mk_runner ''A'' 30 100 ''2025'', mk_runner ''B'' 40 150 ''2025''])
   \<and> sorted_wrt (\<lambda>a b. time_seconds b < time_seconds a) (take 2 (compute_pareto_front
     [mk_runner ''C'' 20 200 ''2025'', mk_runner ''A'' 30 100 ''2025'', mk_runner ''B'' 40 150 ''2025'']))
   \<and> sorted_wrt (\<lambda>a b. time_seconds a < time_seconds b) (drop 1 (compute_pareto_front
     [mk_runner ''C'' 20 200 ''2025'', mk_runner ''A'' 30 100 ''2025'', mk_runner ''B'' 40 150 ''2025'']))"
proof -
  have h: "first_min time_seconds
     [mk_runner ''C'' 20 200 ''2025'', mk_runner ''A'' 30 100 ''2025'', mk_runner ''B'' 40 150 ''2025'']
     (mk_runner ''A'' 30 100 ''2025'')"
    by (simp add: first_min_iff_py_min py_min_def mk_runner_def)
  show ?thesis
    using h front_ordering [OF h]
    by (simp add: mk_runner_def compute_pareto_front_def scan_front_Cons faster_than_def)
qed

text \<open>
  Claim C2, as stated, fails in two ways. The engine does not deduplicate by age: two
  records of age 20 with decreasing times are both kept, so the ages do not strictly
  increase. And a younger record that ties the minimum time is kept next to the peak
  entry, so no index has strictly decreasing times before it and strictly increasing
  times after it.
\<close>

theorem front_ordering_fails_on_ties:
  "\<not> front_ordered (compute_pareto_front
      [mk_runner ''A'' 20 200 ''2025'', mk_runner ''B'' 20 150 ''2025'', mk_runner ''C'' 30 100 ''2025''])
   \<and> \<not> front_ordered (compute_pareto_front
      [mk_runner ''A'' 30 100 ''2025'', mk_runner ''B'' 20 100 ''2025''])"
proof -
  have "\<not> sorted_wrt (\<lambda>a b. age a < age b) (compute_pareto_front
      [mk_runner ''A'' 20 200 ''2025'', mk_runner ''B'' 20 150 ''2025'', mk_runner ''C'' 30 100 ''2025''])"
    by (simp add: mk_runner_def compute_pareto_front_def scan_front_Cons faster_than_def)
  then have one: "\<not> front_ordered (compute_pareto_front
      [mk_runner ''A'' 20 200 ''2025'', mk_runner ''B'' 20 150 ''2025'', mk_runner ''C'' 30 100 ''2025''])"
    by (simp add: front_ordered_def)
  have F: "compute_pareto_front [mk_runner ''A'' 30 100 ''2025'', mk_runner ''B'' 20 100 ''2025'']
      = [mk_runner ''B'' 20 100 ''2025'', mk_runner ''A'' 30 100 ''2025'']"
    by (simp add: mk_runner_def compute_pareto_front_def scan_front_Cons faster_than_def)
  have "\<not> (sorted_wrt (\<lambda>a b. time_seconds b < time_seconds a)
           (take (Suc p) [mk_runner ''B'' 20 100 ''2025'', mk_runner ''A'' 30 100 ''2025''])
         \<and> sorted_wrt (\<lambda>a b. time_seconds a < time_seconds b)
           (drop p [mk_runner ''B'' 20 100 ''2025'', mk_runner ''A'' 30 100 ''2025'']))"
    if "p < 2" for p
  proof -
    from that have "p = 0 \<or> p = 1" by auto
    then show ?thesis by (auto simp: mk_runner_def)
  qed
  then have two: "\<not> front_ordered (compute_pareto_front
      [mk_runner ''A'' 30 100 ''2025'', mk_runner ''B'' 20 100 ''2025''])"
    unfolding front_ordered_def F by auto
  from one two show ?thesis by simp
qed

lemma front_same_side_order:
  assumes fm: "first_min time_seconds runners fastest"
    and r1: "r1 \<in> set (compute_pareto_front runners)"
    and r2: "r2 \<in> set (compute_pareto_front runners)"
    and ne: "r1 \<noteq> r2"
    and side: "same_side (age fastest) (age r1) (age r2)"
    and t: "time_seconds r2 \<le> time_seconds r1"
  shows "\<bar>age r2 - age fastest\<bar> \<le> \<bar>age r1 - age fastest\<bar>"
proof -
  let ?Y = "younger_front (age fastest) runners"
  let ?O = "older_front (age fastest) runners"
  from r1 r2 have m: "r1 \<in> set ?Y \<or> r1 \<in> set ?O" "r2 \<in> set ?Y \<or> r2 \<in> set ?O"
    by (simp_all add: front_unfold [OF fm])
  from side consider "age r1 < age fastest" "age r2 < age fastest"
    | "age fastest \<le> age r1" "age fastest \<le> age r2"
    by (auto simp: same_side_def)
  then show ?thesis
  proof cases
    case 1
    with m have "r1 \<in> set ?Y" "r2 \<in> set ?Y" by (auto dest: older_front_subset)
    from sorted_wrt_pair [OF younger_front_sorted this] ne t
    have "age r1 \<le> age r2" by auto
    with 1 show ?thesis by simp
  next
    case 2
    with m have "r1 \<in> set ?O" "r2 \<in> set ?O" by (auto dest: younger_front_subset)
    from sorted_wrt_pair [OF older_front_sorted this] ne t
    have "age r2 \<le> age r1" by auto
    with 2 show ?thesis by simp
  qed
qed

text \<open>
  Claim C3, amended. For every non-empty input, no entry of the front is dominated by an
  entry strictly farther from the peak age on the same side; and when no two input
  records share an age, the front is non-dominated as the specification states it.
\<close>

theorem front_non_dominated:
  assumes "first_min time_seconds runners fastest"
  shows "(\<forall>r1\<in>set (compute_pareto_front runners). \<forall>r2\<in>set (compute_pareto_front runners).
            \<not> dominates_farther (age fastest) r2 r1)
       \<and> (distinct (map age runners)
            \<longrightarrow> non_dominated (age fastest) (compute_pareto_front runners))"
proof -
  let ?F = "compute_pareto_front runners"
  have a: "\<not> dominates_farther (age fastest) r2 r1" if "r1 \<in> set ?F" "r2 \<in> set ?F" for r1 r2
  proof
    assume d: "dominates_farther (age fastest) r2 r1"
    then have "r1 \<noteq> r2" by (auto simp: dominates_farther_def)
    from front_same_side_order [OF assms that this] d show False
      by (simp add: dominates_farther_def)
  qed
  have b: "\<not> dominates (age fastest) r2 r1"
    if dist: "distinct (map age runners)" and "r1 \<in> set ?F" "r2 \<in> set ?F" "r1 \<noteq> r2" for r1 r2
  proof
    assume d: "dominates (age fastest) r2 r1"
    from that have "r1 \<in> set runners" "r2 \<in> set runners"
      by (simp_all add: front_subset [OF assms])
    with distinct_ages_eq [OF dist this] that(4) have "age r1 \<noteq> age r2" by blast
    moreover from front_same_side_order [OF assms that(2,3,4)] d
    have "\<bar>age r2 - age fastest\<bar> = \<bar>age r1 - age fastest\<bar>"
      by (simp add: dominates_def)
    ultimately show False using d by (auto simp: dominates_def same_side_def)
  qed
  from a b show ?thesis unfolding non_dominated_def by blast
qed

text \<open>
  A pool with distinct ages; its front has more than one entry.
\<close>

theorem front_non_dominated_witness:
  "first_min time_seconds
     [mk_runner ''C'' 20 200 ''2025'', mk_runner ''A'' 30 100 ''2025'', mk_runner ''B'' 40 150 ''2025'']
     (mk_runner ''A'' 30 100 ''2025'')
   \<and> distinct (map age
     [mk_runner ''C'' 20 200 ''2025'', mk_runner ''A'' 30 100 ''2025'', mk_runner ''B'' 40 150 ''2025''])
   \<and> mk_runner ''B'' 40 150 ''2025'' \<in> set (compute_pareto_front
     [mk_runner ''C'' 20 200 ''2025'', mk_runner ''A'' 30 100 ''2025'', mk_runner ''B'' 40 150 ''2025''])
   \<and> non_dominated 30 (compute_pareto_front
     [mk_runner ''C'' 20 200 ''2025'', mk_runner ''A'' 30 100 ''2025'', mk_runner ''B'' 40 150 ''2025''])"
proof -
  have h: "first_min time_seconds
     [mk_runner ''C'' 20 200 ''2025'', mk_runner ''A'' 30 100 ''2025'', mk_runner ''B'' 40 150 ''2025'']
     (mk_runner ''A'' 30 100 ''2025'')"
    by (simp add: first_min_iff_py_min py_min_def mk_runner_def)
  have d: "distinct (map age
     [mk_runner ''C'' 20 200 ''2025'', mk_runner ''A'' 30 100 ''2025'', mk_runner ''B'' 40 150 ''2025''])"
    by (simp add: mk_runner_def)
  have a: "age (mk_runner ''A'' 30 100 ''2025'') = 30" by (simp add: mk_runner_def)
  have m: "mk_runner ''B'' 40 150 ''2025'' \<in> set (compute_pareto_front
     [mk_runner ''C'' 20 200 ''2025'', mk_runner ''A'' 30 100 ''2025'', mk_runner ''B'' 40 150 ''2025''])"
    by (simp add: mk_runner_def compute_pareto_front_def scan_front_Cons faster_than_def)
  from front_non_dominated [OF h] d a m h show ?thesis by simp
qed

text \<open>
  Claim C3, as stated, fails: two records of the same age, the second one faster, are
  both kept by the younger-side scan, and the first is dominated by the second (same
  side, equally far from the peak age, not slower).
\<close>

theorem front_dominated_at_equal_age:
  "first_min time_seconds
      [mk_runner ''A'' 20 200 ''2025'', mk_runner ''B'' 20 150 ''2025'', mk_runner ''C'' 30 100 ''2025'']
      (mk_runner ''C'' 30 100 ''2025'')
   \<and> \<not> non_dominated 30 (compute_pareto_front
      [mk_runner ''A'' 20 200 ''2025'', mk_runner ''B'' 20 150 ''2025'', mk_runner ''C'' 30 100 ''2025''])"
  by (simp add: first_min_iff_py_min py_min_def non_dominated_def dominates_def same_side_def
      mk_runner_def compute_pareto_front_def scan_front_Cons faster_than_def)

section \<open>Running the Pareto Engine on its own output\<close>

text \<open>
  Claim C8, amended. For every non-empty input in which no record younger than the peak
  age has the minimum time (in particular, whenever a single record has the minimum
  time), applying \<open>compute_pareto_front\<close> to its own output returns that output
  unchanged: the same records in the same order. On the empty input both are empty
  (\<open>pareto_front_empty\<close>).
\<close>

theorem pareto_front_idempotent:
  assumes fm: "first_min time_seconds runners fastest"
    and nt: "\<forall>q\<in>set runners. age q < age fastest \<longrightarrow> time_seconds q \<noteq> time_seconds fastest"
  shows "compute_pareto_front (compute_pareto_front runners) = compute_pareto_front runners"
proof -
  let ?Y = "younger_front (age fastest) runners"
  let ?O = "older_front (age fastest) runners"
  let ?F = "?Y @ ?O"
  have F: "compute_pareto_front runners = ?F" by (rule front_unfold [OF fm])
  from older_front_hd [OF fm] obtain e es where e: "?O = e # es"
    and te: "time_seconds e = time_seconds fastest" by blast
  have inO: "x \<in> set ?O \<Longrightarrow> age e \<le> age x" for x
    using older_front_sorted [of "age fastest" runners] e by auto
  have eO: "e \<in> set ?O" using e by simp
  have inY: "x \<in> set ?Y \<Longrightarrow> age x < age e" for x
    using younger_front_subset [of x "age fastest" runners] older_front_subset [OF eO] by simp
  have yt: "time_seconds e < time_seconds y" if "y \<in> set ?Y" for y
  proof -
    from younger_front_subset [OF that] have yr: "y \<in> set runners" "age y < age fastest"
      by simp_all
    from first_min_le [OF fm yr(1)] nt yr te show ?thesis by fastforce
  qed
  have ot: "time_seconds e \<le> time_seconds x" if "x \<in> set es" for x
  proof -
    from that e have "x \<in> set ?O" by simp
    then have "x \<in> set runners" by (simp add: older_front_subset)
    from first_min_le [OF fm this] te show ?thesis by simp
  qed
  have "first_min time_seconds (?Y @ e # es) e"
    unfolding first_min_def using yt ot by blast
  then have fmF: "first_min time_seconds ?F e" by (simp only: e)
  have srt: "sort_key age ?F = ?F"
  proof (rule sort_key_id_if_sorted)
    show "sorted (map age ?F)"
      using front_sorted_by_age [of "age fastest" runners] by (simp only: sorted_map)
  qed
  have fy: "filter (\<lambda>r. age r < age e) ?F = ?Y"
  proof -
    have "filter (\<lambda>r. age r < age e) ?Y = ?Y" by (rule filter_True) (simp add: inY)
    moreover have "filter (\<lambda>r. age r < age e) ?O = []"
      by (rule filter_False) (auto dest: inO)
    ultimately show ?thesis by simp
  qed
  have fo: "filter (\<lambda>r. age e \<le> age r) ?F = ?O"
  proof -
    have "filter (\<lambda>r. age e \<le> age r) ?O = ?O" by (rule filter_True) (simp add: inO)
    moreover have "filter (\<lambda>r. age e \<le> age r) ?Y = []"
      by (rule filter_False) (auto dest: inY)
    ultimately show ?thesis by simp
  qed
  have sy: "scan_front None [] ?Y = ?Y"
  proof (rule scan_front_id)
    show "sorted_wrt (\<lambda>a b. time_seconds b < time_seconds a) ?Y"
      by (rule sorted_wrt_mono_rel [OF _ younger_front_sorted]) simp
  qed (simp add: faster_than_def)
  have so: "scan_front None [] (rev ?O) = rev ?O"
  proof (rule scan_front_id)
    have "sorted_wrt (\<lambda>a b. time_seconds a < time_seconds b) ?O"
      by (rule sorted_wrt_mono_rel [OF _ older_front_sorted]) simp
    then show "sorted_wrt (\<lambda>a b. time_seconds b < time_seconds a) (rev ?O)"
      by (simp add: sorted_wrt_rev)
  qed (simp add: faster_than_def)
  have "younger_front (age e) ?F = ?Y"
    unfolding younger_front_def [of "age e" ?F] srt fy by (rule sy)
  moreover have "older_front (age e) ?F = ?O"
    unfolding older_front_def [of "age e" ?F] srt fo so by simp
  ultimately have "compute_pareto_front ?F = ?F"
    by (simp only: front_unfold [OF fmF])
  then show ?thesis by (simp only: F)
qed

text \<open>
  A pool with a single fastest record; its front is the whole pool.
\<close>

theorem pareto_front_idempotent_witness:
  "first_min time_seconds
     [mk_runner ''C'' 20 200 ''2025'', mk_runner ''A'' 30 100 ''2025'', mk_runner ''B'' 40 150 ''2025'']
     (mk_runner ''A'' 30 100 ''2025'')
   \<and> compute_pareto_front (compute_pareto_front
     [mk_runner ''C'' 20 200 ''2025'', mk_runner ''A'' 30 100 ''2025'', mk_runner ''B'' 40 150 ''2025''])
   = [mk_runner ''C'' 20 200 ''2025'', mk_runner ''A'' 30 100 ''2025'', mk_runner ''B'' 40 150 ''2025'']"
proof -
  have h: "first_min time_seconds
     [mk_runner ''C'' 20 200 ''2025'', mk_runner ''A'' 30 100 ''2025'', mk_runner ''B'' 40 150 ''2025'']
     (mk_runner ''A'' 30 100 ''2025'')"
    by (simp add: first_min_iff_py_min py_min_def mk_runner_def)
  have n: "\<forall>q\<in>set [mk_runner ''C'' 20 200 ''2025'', mk_runner ''A'' 30 100 ''2025'',
              mk_runner ''B'' 40 150 ''2025''].
     age q < age (mk_runner ''A'' 30 100 ''2025'')
       \<longrightarrow> time_seconds q \<noteq> time_seconds (mk_runner ''A'' 30 100 ''2025'')"
    by (simp add: mk_runner_def)
  have F: "compute_pareto_front
     [mk_runner ''C'' 20 200 ''2025'', mk_runner ''A'' 30 100 ''2025'', mk_runner ''B'' 40 150 ''2025'']
     = [mk_runner ''C'' 20 200 ''2025'', mk_runner ''A'' 30 100 ''2025'', mk_runner ''B'' 40 150 ''2025'']"
    by (simp add: mk_runner_def compute_pareto_front_def scan_front_Cons faster_than_def)
  from pareto_front_idempotent [OF h n] F h show ?thesis by simp
qed

text \<open>
  Claim C8, as stated, fails when a younger record ties the minimum time. The first run
  takes the record of age 30 as the peak and keeps both records, the younger one first;
  the second run then finds the younger record first, takes age 20 as the peak age, and
  drops that record in the reversed scan, where it is not strictly faster than the other.
\<close>

theorem pareto_front_not_idempotent_on_tie:
  "set (compute_pareto_front (compute_pareto_front
       [mk_runner ''A'' 30 100 ''2025'', mk_runner ''B'' 20 100 ''2025'']))
   \<noteq> set (compute_pareto_front
       [mk_runner ''A'' 30 100 ''2025'', mk_runner ''B'' 20 100 ''2025''])"
  by (simp add: mk_runner_def compute_pareto_front_def scan_front_Cons faster_than_def)

lemma pareto_front_empty: "compute_pareto_front (compute_pareto_front []) = compute_pareto_front []"
  by (simp add: compute_pareto_front_def)

section \<open>The front time at an age\<close>

lemma pareto_time_exact:
  assumes "p \<in> set front" "age p = a"
  shows "\<exists>q\<in>set front. age q = a \<and> get_pareto_time_at_age a front = Some (time_seconds q)"
proof -
  from assms have "find (\<lambda>p. age p = a) front \<noteq> None" by (auto simp: find_None_iff)
  then obtain q where q: "find (\<lambda>p. age p = a) front = Some q" by auto
  then have "q \<in> set front" "age q = a" by (auto simp: find_Some_iff)
  moreover from q assms(1) have "get_pareto_time_at_age a front = Some (time_seconds q)"
    by (cases front) (simp_all add: get_pareto_time_at_age_def)
  ultimately show ?thesis by blast
qed

lemma pareto_time_below:
  assumes "front = f0 # frest" "\<forall>p\<in>set front. a < age p"
  shows "get_pareto_time_at_age a front = Some (time_seconds (min_key age f0 frest))"
proof -
  from assms(2) have "find (\<lambda>p. age p = a) front = None" by (auto simp: find_None_iff)
  moreover from assms(2) have "filter (\<lambda>p. age p < a) front = []"
    by (auto simp: filter_empty_conv)
  moreover from assms(2) have "filter (\<lambda>p. a < age p) front = front" by (simp add: filter_True)
  ultimately show ?thesis
    using assms(1) by (simp add: get_pareto_time_at_age_def)
qed

lemma pareto_time_above:
  assumes "front = f0 # frest" "\<forall>p\<in>set front. age p < a"
  shows "get_pareto_time_at_age a front = Some (time_seconds (max_key age f0 frest))"
proof -
  from assms(2) have "find (\<lambda>p. age p = a) front = None" by (auto simp: find_None_iff)
  moreover from assms(2) have "filter (\<lambda>p. a < age p) front = []"
    by (auto simp: filter_empty_conv)
  moreover from assms(2) have "filter (\<lambda>p. age p < a) front = front" by (simp add: filter_True)
  ultimately show ?thesis
    using assms(1) by (simp add: get_pareto_time_at_age_def)
qed

lemma pareto_time_between:
  assumes ne: "\<forall>p\<in>set front. age p \<noteq> a"
    and y: "y0 \<in> set front" "age y0 < a"
    and ol: "o0 \<in> set front" "a < age o0"
  shows "\<exists>y\<in>set front. \<exists>ol\<in>set front.
           age y < a \<and> a < age ol
           \<and> (\<forall>p\<in>set front. age p < a \<longrightarrow> age p \<le> age y)
           \<and> (\<forall>p\<in>set front. a < age p \<longrightarrow> age ol \<le> age p)
           \<and> get_pareto_time_at_age a front = Some (interpolate y ol a)"
proof -
  let ?Y = "filter (\<lambda>p. age p < a) front"
  let ?O = "filter (\<lambda>p. a < age p) front"
  from y obtain y1 ys where Y: "?Y = y1 # ys" by (cases ?Y) (auto simp: filter_empty_conv)
  from ol obtain o1 os where O: "?O = o1 # os" by (cases ?O) (auto simp: filter_empty_conv)
  from y obtain f0 frest where f: "front = f0 # frest" by (cases front) auto
  let ?y = "max_key age y1 ys"
  let ?o = "min_key age o1 os"
  have "?y \<in> set ?Y" using max_key_in [of age y1 ys] Y by simp
  then have yin: "?y \<in> set front" "age ?y < a" by simp_all
  have "?o \<in> set ?O" using min_key_in [of age o1 os] O by simp
  then have oin: "?o \<in> set front" "a < age ?o" by simp_all
  have ymax: "age p \<le> age ?y" if "p \<in> set front" "age p < a" for p
  proof -
    from that have "p \<in> set (y1 # ys)" unfolding Y [symmetric] by simp
    then show ?thesis by (rule max_key_ge)
  qed
  have omin: "age ?o \<le> age p" if "p \<in> set front" "a < age p" for p
  proof -
    from that have "p \<in> set (o1 # os)" unfolding O [symmetric] by simp
    then show ?thesis by (rule min_key_le)
  qed
  from ne have "find (\<lambda>p. age p = a) front = None" by (auto simp: find_None_iff)
  with Y O f have "get_pareto_time_at_age a front = Some (interpolate ?y ?o a)"
    by (simp add: get_pareto_time_at_age_def interpolate_def Let_def)
  with yin oin ymax omin show ?thesis by blast
qed

text \<open>
  Claim C5. \<open>get_pareto_time_at_age a front\<close> returns \<open>None\<close> for the empty front. For
  a non-empty front it always returns a time: the time of a front entry of age \<open>a\<close>
  when there is one; the time of a youngest entry when \<open>a\<close> is below every front age;
  the time of an oldest entry when \<open>a\<close> is above every front age; and otherwise the
  linear interpolation between a nearest younger and a nearest older front entry.
\<close>

theorem get_pareto_time_at_age_spec:
  "(front = [] \<longrightarrow> get_pareto_time_at_age a front = None)
   \<and> ((\<exists>p\<in>set front. age p = a) \<longrightarrow>
        (\<exists>p\<in>set front. age p = a \<and> get_pareto_time_at_age a front = Some (time_seconds p)))
   \<and> (front \<noteq> [] \<and> (\<forall>p\<in>set front. a < age p) \<longrightarrow>
        (\<exists>y\<in>set front. (\<forall>p\<in>set front. age y \<le> age p)
           \<and> get_pareto_time_at_age a front = Some (time_seconds y)))
   \<and> (front \<noteq> [] \<and> (\<forall>p\<in>set front. age p < a) \<longrightarrow>
        (\<exists>ol\<in>set front. (\<forall>p\<in>set front. age p \<le> age ol)
           \<and> get_pareto_time_at_age a front = Some (time_seconds ol)))
   \<and> ((\<forall>p\<in>set front. age p \<noteq> a) \<and> (\<exists>p\<in>set front. age p < a) \<and> (\<exists>p\<in>set front. a < age p) \<longrightarrow>
        (\<exists>y\<in>set front. \<exists>ol\<in>set front.
           age y < a \<and> a < age ol
           \<and> (\<forall>p\<in>set front. age p < a \<longrightarrow> age p \<le> age y)
           \<and> (\<forall>p\<in>set front. a < age p \<longrightarrow> age ol \<le> age p)
           \<and> get_pareto_time_at_age a front
               = Some (time_seconds y
                       + (time_seconds ol - time_seconds y) * real_of_int (a - age y)
                         / real_of_int (age ol - age y))))
   \<and> (front \<noteq> [] \<longrightarrow> (\<exists>t. get_pareto_time_at_age a front = Some t))"
proof -
  have c1: "front = [] \<longrightarrow> get_pareto_time_at_age a front = None"
    by (simp add: get_pareto_time_at_age_def)
  have c2: "(\<exists>p\<in>set front. age p = a) \<longrightarrow>
        (\<exists>p\<in>set front. age p = a \<and> get_pareto_time_at_age a front = Some (time_seconds p))"
    using pareto_time_exact by blast
  have c3: "front \<noteq> [] \<and> (\<forall>p\<in>set front. a < age p) \<longrightarrow>
        (\<exists>y\<in>set front. (\<forall>p\<in>set front. age y \<le> age p)
           \<and> get_pareto_time_at_age a front = Some (time_seconds y))"
  proof
    assume h: "front \<noteq> [] \<and> (\<forall>p\<in>set front. a < age p)"
    then obtain f0 frest where f: "front = f0 # frest" by (cases front) auto
    have "min_key age f0 frest \<in> set front" unfolding f by (rule min_key_in)
    moreover have "\<forall>p\<in>set front. age (min_key age f0 frest) \<le> age p"
      unfolding f by (blast intro: min_key_le)
    moreover have "get_pareto_time_at_age a front = Some (time_seconds (min_key age f0 frest))"
      using f h by (simp add: pareto_time_below)
    ultimately show "\<exists>y\<in>set front. (\<forall>p\<in>set front. age y \<le> age p)
           \<and> get_pareto_time_at_age a front = Some (time_seconds y)"
      by blast
  qed
  have c4: "front \<noteq> [] \<and> (\<forall>p\<in>set front. age p < a) \<longrightarrow>
        (\<exists>ol\<in>set front. (\<forall>p\<in>set front. age p \<le> age ol)
           \<and> get_pareto_time_at_age a front = Some (time_seconds ol))"
  proof
    assume h: "front \<noteq> [] \<and> (\<forall>p\<in>set front. age p < a)"
    then obtain f0 frest where f: "front = f0 # frest" by (cases front) auto
    have "max_key age f0 frest \<in> set front" unfolding f by (rule max_key_in)
    moreover have "\<forall>p\<in>set front. age p \<le> age (max_key age f0 frest)"
      unfolding f by (blast intro: max_key_ge)
    moreover have "get_pareto_time_at_age a front = Some (time_seconds (max_key age f0 frest))"
      using f h by (simp add: pareto_time_above)
    ultimately show "\<exists>ol\<in>set front. (\<forall>p\<in>set front. age p \<le> age ol)
           \<and> get_pareto_time_at_age a front = Some (time_seconds ol)"
      by blast
  qed
  have c5: "(\<forall>p\<in>set front. age p \<noteq> a) \<and> (\<exists>p\<in>set front. age p < a) \<and> (\<exists>p\<in>set front. a < age p) \<longrightarrow>
        (\<exists>y\<in>set front. \<exists>ol\<in>set front.
           age y < a \<and> a < age ol
           \<and> (\<forall>p\<in>set front. age p < a \<longrightarrow> age p \<le> age y)
           \<and> (\<forall>p\<in>set front. a < age p \<longrightarrow> age ol \<le> age p)
           \<and> get_pareto_time_at_age a front
               = Some (time_seconds y
                       + (time_seconds ol - time_seconds y) * real_of_int (a - age y)
                         / real_of_int (age ol - age y)))"
    using pareto_time_between [of front a] unfolding interpolate_def by blast
  have c6: "front \<noteq> [] \<longrightarrow> (\<exists>t. get_pareto_time_at_age a front = Some t)"
  proof
    assume ne: "front \<noteq> []"
    consider "\<exists>p\<in>set front. age p = a"
      | "\<forall>p\<in>set front. a < age p"
      | "\<forall>p\<in>set front. age p < a"
      | "(\<forall>p\<in>set front. age p \<noteq> a) \<and> (\<exists>p\<in>set front. age p < a) \<and> (\<exists>p\<in>set front. a < age p)"
      by (meson not_less_iff_gr_or_eq)
    then show "\<exists>t. get_pareto_time_at_age a front = Some t"
    proof cases
      case 1 with c2 show ?thesis by blast
    next
      case 2 with c3 ne show ?thesis by blast
    next
      case 3 with c4 ne show ?thesis by blast
    next
      case 4 with c5 show ?thesis by blast
    qed
  qed
  from c1 c2 c3 c4 c5 c6 show ?thesis by (intro conjI)
qed

text \<open>
  The two examples of the specification (exact match 1100, midpoint 1300), a query below
  and a query above every front age, and the empty front.
\<close>

theorem get_pareto_time_at_age_spec_witness:
  "get_pareto_time_at_age 30
     [mk_runner ''A'' 20 1200 ''2025'', mk_runner ''B'' 30 1100 ''2025'', mk_runner ''C'' 40 1300 ''2025'']
     = Some 1100
   \<and> get_pareto_time_at_age 30
     [mk_runner ''A'' 20 1200 ''2025'', mk_runner ''C'' 40 1400 ''2025''] = Some 1300
   \<and> get_pareto_time_at_age 10
     [mk_runner ''A'' 20 1200 ''2025'', mk_runner ''C'' 40 1400 ''2025''] = Some 1200
   \<and> get_pareto_time_at_age 50
     [mk_runner ''A'' 20 1200 ''2025'', mk_runner ''C'' 40 1400 ''2025''] = Some 1400
   \<and> get_pareto_time_at_age 30 [] = None"
  using
    get_pareto_time_at_age_spec [of
      "[mk_runner ''A'' 20 1200 ''2025'', mk_runner ''B'' 30 1100 ''2025'', mk_runner ''C'' 40 1300 ''2025'']" 30]
    get_pareto_time_at_age_spec [of
      "[mk_runner ''A'' 20 1200 ''2025'', mk_runner ''C'' 40 1400 ''2025'']" 30]
    get_pareto_time_at_age_spec [of
      "[mk_runner ''A'' 20 1200 ''2025'', mk_runner ''C'' 40 1400 ''2025'']" 10]
    get_pareto_time_at_age_spec [of
      "[mk_runner ''A'' 20 1200 ''2025'', mk_runner ''C'' 40 1400 ''2025'']" 50]
    get_pareto_time_at_age_spec [of "[]" 30]
  by (simp add: mk_runner_def)

section \<open>Distance to the front\<close>

lemma younger_front_mono:
  assumes "distinct (map age runners)"
    and "x \<in> set (younger_front pa runners)" "y \<in> set (younger_front pa runners)"
    and "age x \<le> age y"
  shows "time_seconds y \<le> time_seconds x"
proof -
  from assms(2,3) have "x \<in> set runners" "y \<in> set runners"
    by (simp_all add: younger_front_subset)
  from distinct_ages_eq [OF assms(1) this] sorted_wrt_pair [OF younger_front_sorted assms(2,3)]
    assms(4)
  show ?thesis by fastforce
qed

lemma older_front_mono:
  assumes "distinct (map age runners)"
    and "x \<in> set (older_front pa runners)" "y \<in> set (older_front pa runners)"
    and "age x \<le> age y"
  shows "time_seconds x \<le> time_seconds y"
proof -
  from assms(2,3) have "x \<in> set runners" "y \<in> set runners"
    by (simp_all add: older_front_subset)
  from distinct_ages_eq [OF assms(1) this] sorted_wrt_pair [OF older_front_sorted assms(2,3)]
    assms(4)
  show ?thesis by fastforce
qed

lemma interpolate_le:
  assumes "age y < a" "a < age ol" "time_seconds y \<le> T" "time_seconds ol \<le> T"
  shows "interpolate y ol a \<le> T"
proof -
  define u where "u = real_of_int (a - age y) / real_of_int (age ol - age y)"
  have d: "0 < real_of_int (age ol - age y)" using assms(1,2) by simp
  have u0: "0 \<le> u" using assms(1,2) by (simp add: u_def)
  have u1: "u \<le> 1" using assms(1,2) d by (simp add: u_def)
  have "interpolate y ol a = time_seconds y + (time_seconds ol - time_seconds y) * u"
    by (simp add: interpolate_def u_def)
  also have "\<dots> = (1 - u) * time_seconds y + u * time_seconds ol"
    by (simp add: algebra_simps)
  also have "\<dots> \<le> T"
    by (rule convex_bound_le) (use assms(3,4) u0 u1 in simp_all)
  finally show ?thesis .
qed

lemma pareto_time_member:
  assumes fm: "first_min time_seconds pool fastest"
    and dist: "distinct (map age pool)"
    and r: "r \<in> set (compute_pareto_front pool)"
  shows "get_pareto_time_at_age (age r) (compute_pareto_front pool) = Some (time_seconds r)"
proof -
  from pareto_time_exact [OF r refl]
  obtain q where q: "q \<in> set (compute_pareto_front pool)" "age q = age r"
    "get_pareto_time_at_age (age r) (compute_pareto_front pool) = Some (time_seconds q)"
    by blast
  from q(1) r have "q \<in> set pool" "r \<in> set pool" by (simp_all add: front_subset [OF fm])
  from distinct_ages_eq [OF dist this q(2)] q(3) show ?thesis by simp
qed

lemma pareto_time_non_member:
  assumes fm: "first_min time_seconds pool fastest"
    and dist: "distinct (map age pool)"
    and nt: "\<forall>q\<in>set pool. age fastest < age q \<longrightarrow> time_seconds q \<noteq> time_seconds fastest"
    and r: "r \<in> set pool" "r \<notin> set (compute_pareto_front pool)"
  shows "\<exists>pt. get_pareto_time_at_age (age r) (compute_pareto_front pool) = Some pt
           \<and> pt \<le> time_seconds r"
proof -
  let ?Y = "younger_front (age fastest) pool"
  let ?O = "older_front (age fastest) pool"
  let ?F = "compute_pareto_front pool"
  have F: "set ?F = set ?Y \<union> set ?O" by (simp add: front_unfold [OF fm])
  have sub: "x \<in> set ?F \<Longrightarrow> x \<in> set pool" for x by (rule front_subset [OF fm])
  have noex: "\<forall>p\<in>set ?F. age p \<noteq> age r"
    using distinct_ages_eq [OF dist _ r(1)] sub r(2) by blast
  from older_front_min [OF fm]
  obtain m where m: "m \<in> set ?O" "time_seconds m = time_seconds fastest" "age fastest \<le> age m"
    by auto
  have mmin: "time_seconds m \<le> time_seconds x" if "x \<in> set pool" for x
    using first_min_le [OF fm that] m(2) by simp
  have bounds: "\<exists>s\<in>set ?F. \<exists>t\<in>set ?F. age s < age r \<and> age r < age t
      \<and> (\<forall>y\<in>set ?F. \<forall>ol\<in>set ?F.
            age s \<le> age y \<and> age y < age r \<and> age r < age ol \<and> age ol \<le> age t
            \<longrightarrow> time_seconds y \<le> time_seconds r \<and> time_seconds ol \<le> time_seconds r)"
  proof (cases "age r < age fastest")
    case True
    from younger_front_covers [OF r(1) True]
    obtain s where s: "s \<in> set ?Y" "time_seconds s \<le> time_seconds r" "age s \<le> age r"
      by auto
    from s(1) F have sF: "s \<in> set ?F" by simp
    with noex s(3) have slt: "age s < age r" by fastforce
    from m(1) F have mF: "m \<in> set ?F" by simp
    from m(3) True have mgt: "age r < age m" by simp
    have "time_seconds y \<le> time_seconds r \<and> time_seconds ol \<le> time_seconds r"
      if y: "y \<in> set ?F" and ol: "ol \<in> set ?F"
        and b: "age s \<le> age y \<and> age y < age r \<and> age r < age ol \<and> age ol \<le> age m"
      for y ol
    proof
      from y b True F have "y \<in> set ?Y" by (auto dest: older_front_subset)
      from younger_front_mono [OF dist s(1) this] b s(2)
      show "time_seconds y \<le> time_seconds r" by simp
    next
      from ol F consider "ol \<in> set ?Y" | "ol \<in> set ?O" by auto
      then show "time_seconds ol \<le> time_seconds r"
      proof cases
        case 1
        from younger_front_mono [OF dist s(1) 1] b slt s(2) show ?thesis by simp
      next
        case 2
        from older_front_mono [OF dist 2 m(1)] b mmin [OF r(1)] show ?thesis by simp
      qed
    qed
    with sF mF slt mgt show ?thesis by blast
  next
    case False
    then have ge: "age fastest \<le> age r" by simp
    from older_front_covers [OF r(1) ge]
    obtain t where t: "t \<in> set ?O" "time_seconds t \<le> time_seconds r" "age r \<le> age t"
      by auto
    from t(1) F have tF: "t \<in> set ?F" by simp
    with noex t(3) have tgt: "age r < age t" by fastforce
    have "m \<in> set pool" using m(1) by (simp add: older_front_subset)
    with nt m(2,3) have "age m = age fastest" by fastforce
    from m(1) F have mF: "m \<in> set ?F" by simp
    with noex ge \<open>age m = age fastest\<close> have mlt: "age m < age r" by fastforce
    have "time_seconds y \<le> time_seconds r \<and> time_seconds ol \<le> time_seconds r"
      if y: "y \<in> set ?F" and ol: "ol \<in> set ?F"
        and b: "age m \<le> age y \<and> age y < age r \<and> age r < age ol \<and> age ol \<le> age t"
      for y ol
    proof
      from y b \<open>age m = age fastest\<close> F have "y \<in> set ?O" by (auto dest: younger_front_subset)
      from older_front_mono [OF dist this t(1)] b tgt t(2)
      show "time_seconds y \<le> time_seconds r" by simp
    next
      from ol b ge F have "ol \<in> set ?O" by (auto dest: younger_front_subset)
      from older_front_mono [OF dist this t(1)] b t(2)
      show "time_seconds ol \<le> time_seconds r" by simp
    qed
    with mF tF mlt tgt show ?thesis by blast
  qed
  then obtain s t where st: "s \<in> set ?F" "t \<in> set ?F" "age s < age r" "age r < age t"
    and near: "\<And>y ol. y \<in> set ?F \<Longrightarrow> ol \<in> set ?F \<Longrightarrow>
        age s \<le> age y \<and> age y < age r \<and> age r < age ol \<and> age ol \<le> age t \<Longrightarrow>
        time_seconds y \<le> time_seconds r \<and> time_seconds ol \<le> time_seconds r"
    by blast
  from pareto_time_between [OF noex st(1,3) st(2,4)]
  obtain y ol where yo: "y \<in> set ?F" "ol \<in> set ?F" "age y < age r" "age r < age ol"
    and ymax: "\<forall>p\<in>set ?F. age p < age r \<longrightarrow> age p \<le> age y"
    and omin: "\<forall>p\<in>set ?F. age r < age p \<longrightarrow> age ol \<le> age p"
    and res: "get_pareto_time_at_age (age r) ?F = Some (interpolate y ol (age r))"
    by blast
  from ymax st(1,3) have "age s \<le> age y" by blast
  moreover from omin st(2,4) have "age ol \<le> age t" by blast
  ultimately have "time_seconds y \<le> time_seconds r \<and> time_seconds ol \<le> time_seconds r"
    using near [OF yo(1,2)] yo(3,4) by blast
  then have "interpolate y ol (age r) \<le> time_seconds r"
    using interpolate_le [OF yo(3,4)] by blast
  with res show ?thesis by blast
qed

text \<open>
  Where the distance is right. A member of the front is at distance zero from it whenever
  no two records of the pool share an age, ties or not.
\<close>

lemma distance_to_pareto_member_zero:
  assumes "first_min time_seconds pool fastest"
    and "distinct (map age pool)"
    and "r \<in> set (compute_pareto_front pool)"
  shows "get_pareto_time_at_age (age r) (compute_pareto_front pool) = Some (time_seconds r)
       \<and> distance_to_pareto r (compute_pareto_front pool)
           = (if time_seconds r = 0 then None else Some 0)"
  using pareto_time_member [OF assms] by (simp add: distance_to_pareto_def)

text \<open>
  And the distance of every pool record is non-negative whenever, in addition, no record
  older than the peak age has the minimum time. The caller's \<open>distance_to_pareto\<close> is the
  difference to the front time \<open>pt\<close>, and \<open>None\<close> when the front time is zero.
\<close>

lemma distance_to_pareto_nonneg_without_older_tie:
  assumes "first_min time_seconds pool fastest"
    and "distinct (map age pool)"
    and "\<forall>q\<in>set pool. age fastest < age q \<longrightarrow> time_seconds q \<noteq> time_seconds fastest"
    and "r \<in> set pool"
  shows "\<exists>pt. get_pareto_time_at_age (age r) (compute_pareto_front pool) = Some pt
           \<and> 0 \<le> time_seconds r - pt
           \<and> distance_to_pareto r (compute_pareto_front pool)
               = (if pt = 0 then None else Some (time_seconds r - pt))"
proof (cases "r \<in> set (compute_pareto_front pool)")
  case True
  from pareto_time_member [OF assms(1,2) True] show ?thesis
    by (simp add: distance_to_pareto_def)
next
  case False
  from pareto_time_non_member [OF assms False]
  obtain pt where pt: "get_pareto_time_at_age (age r) (compute_pareto_front pool) = Some pt"
    "pt \<le> time_seconds r"
    by blast
  from pt(1) have "distance_to_pareto r (compute_pareto_front pool)
      = (if pt = 0 then None else Some (time_seconds r - pt))"
    by (simp add: distance_to_pareto_def)
  with pt show ?thesis by simp
qed

text \<open>
  Claim C10: in a non-empty pool with pairwise distinct ages, every record's distance to
  the front is non-negative, and zero for the members of the front. The program breaks
  the first half at the pool below, three records of ages 30, 40 and 20 with times 100,
  100 and 200. The record of age 30 is the peak record, the one \<open>min\<close> returns, first to
  attain the minimum time. The reversed scan meets the record of age 40 first and then drops the peak
  record, which is not strictly faster, so the front is the records of ages 20 and 40.
  The front time at age 30 is interpolated between them as 150, above the peak record's
  own time, and the distance of the peak record is \<open>- 50\<close>. The two members of the front are
  at distance 0, so the ranking by distance, which is meant to put the members of the
  front first, puts the peak record before them; and \<open>count_blocking_runners\<close> reports
  that no runner has to be removed for the peak record to be on the front.
\<close>

theorem distance_to_pareto_negative_on_tie:
  "distinct (map age
     [mk_runner ''A'' 30 100 ''2025'', mk_runner ''B'' 40 100 ''2025'', mk_runner ''C'' 20 200 ''2025''])
   \<and> py_min time_seconds
     [mk_runner ''A'' 30 100 ''2025'', mk_runner ''B'' 40 100 ''2025'', mk_runner ''C'' 20 200 ''2025'']
     = Inr (mk_runner ''A'' 30 100 ''2025'')
   \<and> compute_pareto_front
     [mk_runner ''A'' 30 100 ''2025'', mk_runner ''B'' 40 100 ''2025'', mk_runner ''C'' 20 200 ''2025'']
     = [mk_runner ''C'' 20 200 ''2025'', mk_runner ''B'' 40 100 ''2025'']
   \<and> get_pareto_time_at_age 30 (compute_pareto_front
     [mk_runner ''A'' 30 100 ''2025'', mk_runner ''B'' 40 100 ''2025'', mk_runner ''C'' 20 200 ''2025''])
     = Some 150
   \<and> distance_to_pareto (mk_runner ''A'' 30 100 ''2025'') (compute_pareto_front
     [mk_runner ''A'' 30 100 ''2025'', mk_runner ''B'' 40 100 ''2025'', mk_runner ''C'' 20 200 ''2025''])
     = Some (- 50)
   \<and> distance_to_pareto (mk_runner ''B'' 40 100 ''2025'') (compute_pareto_front
     [mk_runner ''A'' 30 100 ''2025'', mk_runner ''B'' 40 100 ''2025'', mk_runner ''C'' 20 200 ''2025''])
     = Some 0
   \<and> distance_to_pareto (mk_runner ''C'' 20 200 ''2025'') (compute_pareto_front
     [mk_runner ''A'' 30 100 ''2025'', mk_runner ''B'' 40 100 ''2025'', mk_runner ''C'' 20 200 ''2025''])
     = Some 0
   \<and> count_blocking_runners (mk_runner ''A'' 30 100 ''2025'')
     [mk_runner ''A'' 30 100 ''2025'', mk_runner ''B'' 40 100 ''2025'', mk_runner ''C'' 20 200 ''2025'']
     = Inr 0"
proof -
  let ?pool = "[mk_runner ''A'' 30 100 ''2025'', mk_runner ''B'' 40 100 ''2025'',
      mk_runner ''C'' 20 200 ''2025'']"
  have d: "distinct (map age ?pool)" by (simp add: mk_runner_def)
  have h: "py_min time_seconds ?pool = Inr (mk_runner ''A'' 30 100 ''2025'')"
    by (simp add: py_min_def mk_runner_def)
  have F: "compute_pareto_front ?pool
      = [mk_runner ''C'' 20 200 ''2025'', mk_runner ''B'' 40 100 ''2025'']"
    by (simp add: mk_runner_def compute_pareto_front_def scan_front_Cons faster_than_def)
  have t: "get_pareto_time_at_age 30 (compute_pareto_front ?pool) = Some 150"
    unfolding F by (simp add: mk_runner_def get_pareto_time_at_age_def)
  have a: "distance_to_pareto (mk_runner ''A'' 30 100 ''2025'') (compute_pareto_front ?pool)
      = Some (- 50)"
    unfolding F by (simp add: mk_runner_def distance_to_pareto_def get_pareto_time_at_age_def)
  have b: "distance_to_pareto (mk_runner ''B'' 40 100 ''2025'') (compute_pareto_front ?pool)
      = Some 0"
    unfolding F by (simp add: mk_runner_def distance_to_pareto_def get_pareto_time_at_age_def)
  have c: "distance_to_pareto (mk_runner ''C'' 20 200 ''2025'') (compute_pareto_front ?pool)
      = Some 0"
    unfolding F by (simp add: mk_runner_def distance_to_pareto_def get_pareto_time_at_age_def)
  have n: "count_blocking_runners (mk_runner ''A'' 30 100 ''2025'') ?pool = Inr 0"
    by (simp add: mk_runner_def count_blocking_runners_def py_min_def)
  from d h F t a b c n show ?thesis by (intro conjI)
qed

section \<open>Age reduction\<close>

lemma fastest_at_age_snoc:
  "fastest_at_age (ps @ [x]) k =
     (if age x = k
      then (case fastest_at_age ps k of
              None \<Rightarrow> Some x
            | Some cur \<Rightarrow> if time_seconds x < time_seconds cur then Some x else Some cur)
      else fastest_at_age ps k)"
proof (cases "filter (\<lambda>q. age q = k) ps")
  case Nil
  then show ?thesis by (simp add: fastest_at_age_def)
next
  case (Cons y ys)
  then show ?thesis by (simp add: fastest_at_age_def min_key_snoc Let_def)
qed

lemma age_groups_step_map_of:
  assumes "map_of d = fastest_at_age ps"
  shows "map_of (age_groups_step x d) = fastest_at_age (ps @ [x])"
proof
  fix k
  show "map_of (age_groups_step x d) k = fastest_at_age (ps @ [x]) k"
  proof (cases "age x = k")
    case True
    with assms show ?thesis
      by (cases "fastest_at_age ps k")
        (simp_all add: age_groups_step_def fastest_at_age_snoc update_conv')
  next
    case False
    with assms show ?thesis
      by (cases "fastest_at_age ps (age x)")
        (simp_all add: age_groups_step_def fastest_at_age_snoc update_conv')
  qed
qed

lemma age_groups_step_distinct:
  "distinct (map fst d) \<Longrightarrow> distinct (map fst (age_groups_step x d))"
  by (simp add: age_groups_step_def distinct_update split: option.splits)

lemma age_groups_fold:
  "distinct (map fst (fold age_groups_step ps []))
   \<and> map_of (fold age_groups_step ps []) = fastest_at_age ps"
proof (induction ps rule: rev_induct)
  case Nil
  show ?case by (simp add: fastest_at_age_def fun_eq_iff)
next
  case (snoc x ps)
  then show ?case
    by (simp add: age_groups_step_map_of age_groups_step_distinct)
qed

lemma fastest_at_age_Some:
  assumes "fastest_at_age pool k = Some v"
  shows "age v = k \<and> first_min time_seconds (filter (\<lambda>q. age q = k) pool) v"
proof -
  from assms obtain y ys where f: "filter (\<lambda>q. age q = k) pool = y # ys"
    and v: "v = min_key time_seconds y ys"
    by (auto simp: fastest_at_age_def split: list.splits)
  have fm: "first_min time_seconds (filter (\<lambda>q. age q = k) pool) v"
    unfolding f v by (rule min_key_first_min)
  from first_min_in [OF fm] have "age v = k" by simp
  with fm show ?thesis by simp
qed

lemma fastest_at_age_dom: "dom (fastest_at_age pool) = age ` set pool"
proof -
  have "fastest_at_age pool k \<noteq> None \<longleftrightarrow> k \<in> age ` set pool" for k
  proof -
    have "fastest_at_age pool k \<noteq> None \<longleftrightarrow> filter (\<lambda>q. age q = k) pool \<noteq> []"
      by (simp add: fastest_at_age_def split: list.splits)
    also have "\<dots> \<longleftrightarrow> k \<in> age ` set pool"
      by (auto simp: filter_empty_conv)
    finally show ?thesis .
  qed
  then show ?thesis by (auto simp: dom_def)
qed

text \<open>
  Claim C7. The Age Reducer returns exactly one record for each age present in the pool:
  the ages of the result are pairwise distinct and are the ages of the pool. Each record
  returned is a pool record, its time is at most the time of every pool record of its
  age, and it is the first record, in input order, that attains the minimum time among
  the pool records of its age. The empty pool yields the empty result.
\<close>

theorem get_fastest_at_each_age_spec:
  "distinct (map age (get_fastest_at_each_age pool))
   \<and> set (map age (get_fastest_at_each_age pool)) = age ` set pool
   \<and> (\<forall>r\<in>set (get_fastest_at_each_age pool).
        r \<in> set pool
        \<and> (\<forall>q\<in>set pool. age q = age r \<longrightarrow> time_seconds r \<le> time_seconds q)
        \<and> first_min time_seconds (filter (\<lambda>q. age q = age r) pool) r)
   \<and> (pool = [] \<longrightarrow> get_fastest_at_each_age pool = [])"
proof -
  let ?d = "fold age_groups_step pool []"
  have R: "get_fastest_at_each_age pool = map snd ?d"
    by (simp add: get_fastest_at_each_age_def)
  have dist: "distinct (map fst ?d)" and mo: "map_of ?d = fastest_at_age pool"
    using age_groups_fold [of pool] by simp_all
  have entry: "age v = k \<and> first_min time_seconds (filter (\<lambda>q. age q = k) pool) v"
    if "(k, v) \<in> set ?d" for k v
  proof -
    from that dist have "map_of ?d k = Some v" by simp
    then show ?thesis unfolding mo by (rule fastest_at_age_Some)
  qed
  have keys: "map age (map snd ?d) = map fst ?d"
    using entry by (auto simp: map_eq_conv)
  have c1: "distinct (map age (get_fastest_at_each_age pool))"
    unfolding R keys by (rule dist)
  have "set (map fst ?d) = dom (map_of ?d)" by (simp add: dom_map_of_conv_image_fst)
  then have c2: "set (map age (get_fastest_at_each_age pool)) = age ` set pool"
    unfolding R keys mo fastest_at_age_dom .
  have c3: "r \<in> set pool
        \<and> (\<forall>q\<in>set pool. age q = age r \<longrightarrow> time_seconds r \<le> time_seconds q)
        \<and> first_min time_seconds (filter (\<lambda>q. age q = age r) pool) r"
    if "r \<in> set (get_fastest_at_each_age pool)" for r
  proof -
    from that obtain k where kr: "(k, r) \<in> set ?d" unfolding R by auto
    from entry [OF kr] have fm: "first_min time_seconds (filter (\<lambda>q. age q = age r) pool) r"
      by simp
    from first_min_in [OF fm] have "r \<in> set pool" by simp
    moreover have "time_seconds r \<le> time_seconds q" if "q \<in> set pool" "age q = age r" for q
      by (rule first_min_le [OF fm]) (use that in simp)
    ultimately show ?thesis using fm by blast
  qed
  have c4: "pool = [] \<longrightarrow> get_fastest_at_each_age pool = []"
    by (simp add: get_fastest_at_each_age_def)
  from c1 c2 c3 c4 show ?thesis by blast
qed

text \<open>
  Two ages over three years: at age 20 the later, faster record replaces the first; at
  age 25 two records tie and the first one met is kept.
\<close>

theorem get_fastest_at_each_age_spec_witness:
  "get_fastest_at_each_age
     [mk_runner ''A'' 20 1300 ''2023'', mk_runner ''B'' 25 1250 ''2024'',
      mk_runner ''C'' 20 1200 ''2025'', mk_runner ''D'' 25 1250 ''2025'']
   = [mk_runner ''C'' 20 1200 ''2025'', mk_runner ''B'' 25 1250 ''2024'']
   \<and> first_min time_seconds (filter (\<lambda>q. age q = 25)
     [mk_runner ''A'' 20 1300 ''2023'', mk_runner ''B'' 25 1250 ''2024'',
      mk_runner ''C'' 20 1200 ''2025'', mk_runner ''D'' 25 1250 ''2025''])
     (mk_runner ''B'' 25 1250 ''2024'')
   \<and> get_fastest_at_each_age [] = []"
proof -
  let ?pool = "[mk_runner ''A'' 20 1300 ''2023'', mk_runner ''B'' 25 1250 ''2024'',
      mk_runner ''C'' 20 1200 ''2025'', mk_runner ''D'' 25 1250 ''2025'']"
  have R: "get_fastest_at_each_age ?pool
     = [mk_runner ''C'' 20 1200 ''2025'', mk_runner ''B'' 25 1250 ''2024'']"
    by (simp add: get_fastest_at_each_age_def age_groups_step_def mk_runner_def)
  have a: "age (mk_runner ''B'' 25 1250 ''2024'') = 25" by (simp add: mk_runner_def)
  from get_fastest_at_each_age_spec [of ?pool] get_fastest_at_each_age_spec [of "[]"] R a
  show ?thesis by (simp add: mk_runner_def)
qed

section \<open>Display names\<close>

lemma years_of_name_snoc:
  "years_of_name (ps @ [x]) n =
     (if name x = n
      then (case years_of_name ps n of
              None \<Rightarrow> Some [year x]
            | Some ys \<Rightarrow> Some (ys @ [year x]))
      else years_of_name ps n)"
  by (cases "filter (\<lambda>q. name q = n) ps") (simp_all add: years_of_name_def)

lemma name_year_counts_step_years:
  assumes "counts = years_of_name ps"
  shows "name_year_counts_step x counts = years_of_name (ps @ [x])"
proof
  fix n
  show "name_year_counts_step x counts n = years_of_name (ps @ [x]) n"
  proof (cases "name x = n")
    case True
    with assms show ?thesis
      by (cases "years_of_name ps n")
        (simp_all add: name_year_counts_step_def years_of_name_snoc)
  next
    case False
    with assms show ?thesis
      by (cases "years_of_name ps (name x)")
        (simp_all add: name_year_counts_step_def years_of_name_snoc)
  qed
qed

lemma name_year_counts_years: "name_year_counts all_results = years_of_name all_results"
  unfolding name_year_counts_def
proof (induction all_results rule: rev_induct)
  case Nil
  show ?case by (simp add: years_of_name_def fun_eq_iff)
next
  case (snoc x ps)
  then show ?case by (simp add: name_year_counts_step_years)
qed

lemma display_name_years:
  assumes "r \<in> set all_results"
  shows "display_name (years_of_name all_results) r = Inr (spec_display_name all_results r)"
proof -
  let ?rs = "filter (\<lambda>q. name q = name r) all_results"
  from assms have "r \<in> set ?rs" by simp
  then obtain y ys where f: "?rs = y # ys" by (cases ?rs) auto
  then have yn: "years_of_name all_results (name r) = Some (map year ?rs)"
    by (simp add: years_of_name_def)
  have "length (remdups (map year ?rs)) = card (set (map year ?rs))"
    by (rule length_remdups_card_conv)
  also have "set (map year ?rs) = year ` {q \<in> set all_results. name q = name r}"
    by auto
  finally show ?thesis
    by (simp add: display_name_def yn spec_display_name_def)
qed

lemma display_names_loop_years:
  assumes "set rs \<subseteq> set all_results"
  shows "display_names_loop (years_of_name all_results) rs
     = Inr (map (\<lambda>r. (r, spec_display_name all_results r)) rs)"
  using assms by (induction rs) (simp_all add: display_name_years)

text \<open>
  Claim C9. In the all-time view the second loop never fails, and it gives every record
  its raw name followed by a space and the year in parentheses exactly when the records
  sharing that raw name span more than one distinct year; otherwise the raw name unchanged.
\<close>

theorem display_names_spec:
  "display_names all_results =
     Inr (map (\<lambda>r. (r, if 1 < card (year ` {q \<in> set all_results. name q = name r})
                        then name r @ '' ('' @ year r @ '')''
                        else name r))
            all_results)"
proof -
  have "display_names all_results
      = Inr (map (\<lambda>r. (r, spec_display_name all_results r)) all_results)"
    by (simp add: display_names_def name_year_counts_years display_names_loop_years)
  then show ?thesis by (simp add: spec_display_name_def)
qed

text \<open>
  A name present in 2023 and 2025 gets its year appended on both records; a name present
  twice in 2024 only is left unchanged.
\<close>

theorem display_names_spec_witness:
  "map snd (projr (display_names
     [mk_runner ''Ann'' 30 1200 ''2023'', mk_runner ''Bob'' 41 1300 ''2024'',
      mk_runner ''Ann'' 32 1250 ''2025'', mk_runner ''Bob'' 41 1350 ''2024'']))
   = [''Ann (2023)'', ''Bob'', ''Ann (2025)'', ''Bob'']"
proof -
  let ?all = "[mk_runner ''Ann'' 30 1200 ''2023'', mk_runner ''Bob'' 41 1300 ''2024'',
      mk_runner ''Ann'' 32 1250 ''2025'', mk_runner ''Bob'' 41 1350 ''2024'']"
  have "year ` {q \<in> set ?all. name q = ''Ann''}
      = set (map year (filter (\<lambda>q. name q = ''Ann'') ?all))"
    by (simp only: set_map set_filter)
  also have "\<dots> = {''2023'', ''2025''}" by (simp add: mk_runner_def)
  finally have a: "card (year ` {q \<in> set ?all. name q = ''Ann''}) = 2" by simp
  have "year ` {q \<in> set ?all. name q = ''Bob''}
      = set (map year (filter (\<lambda>q. name q = ''Bob'') ?all))"
    by (simp only: set_map set_filter)
  also have "\<dots> = {''2024''}" by (simp add: mk_runner_def)
  finally have b: "card (year ` {q \<in> set ?all. name q = ''Bob''}) = 1" by simp
  have n: "name (mk_runner n a t y) = n" "year (mk_runner n a t y) = y" for n a t y
    by (simp_all add: mk_runner_def)
  show ?thesis
    unfolding display_names_spec list.map n a b by simp
qed

end
